theory Spec2Isabelle
  imports Complex_Main "HOL-Library.Word" "HOL-Library.Sublist" "HOL-Library.Log_Nat"
begin

unbundle bit_operations_syntax

section \<open>Common definitions\<close>

text \<open>
  The exception kinds of \<^verbatim>\<open>Exception.ts\<close> that the modelled code throws. A function
  that can throw returns \<open>exception + 'a\<close>, \<open>Inl\<close> being the thrown exception.
\<close>

datatype exception = IllegalArgumentException | NotFoundException

text \<open>
  The bitwise operators of the source work on 32-bit integers, and a shift count is taken
  modulo 32: \<open>shl\<close> is \<^verbatim>\<open><<\<close>, \<open>shr\<close> is \<^verbatim>\<open>>>\<close> (sign-propagating) and \<open>ushr\<close> is
  \<^verbatim>\<open>>>>\<close> (zero-filling).
\<close>

type_synonym int32 = "32 word"

definition shl :: "int32 \<Rightarrow> int \<Rightarrow> int32" where
  "shl x n = push_bit (nat (n mod 32)) x"

definition shr :: "int32 \<Rightarrow> int \<Rightarrow> int32" where
  "shr x n = signed_drop_bit (nat (n mod 32)) x"

definition ushr :: "int32 \<Rightarrow> int \<Rightarrow> int32" where
  "ushr x n = drop_bit (nat (n mod 32)) x"

section \<open>Numbers\<close>

text \<open>
  A \<^verbatim>\<open>number\<close> of the source is an IEEE 754 double-precision value: a finite value
  (\<open>Num r\<close>, where \<open>Num 0\<close> is the positive zero), the negative zero, an infinity or NaN.
  An element of a \<^verbatim>\<open>Float32Array\<close> is a single-precision value and is held in the same
  type. An arithmetic operator yields the exact result rounded to the nearest value of the
  format, a tie going to the value whose last digit is even.
\<close>

datatype number = Num real | NegZero | Infinity | NegInfinity | NaN

text \<open>
  \<open>pow2 q\<close> is \<open>2\<close> to the power \<open>q\<close>, and \<open>ilog2 r\<close> is, for \<open>r > 0\<close>, the exponent \<open>e\<close>
  with \<open>2 ^ e \<le> r < 2 ^ (e + 1)\<close>.
\<close>

definition pow2 :: "int \<Rightarrow> real" where
  "pow2 q = (if 0 \<le> q then 2 ^ nat q else 1 / 2 ^ nat (- q))"

definition ilog2 :: "real \<Rightarrow> int" where
  "ilog2 r = (if 1 \<le> r then bitlen \<lfloor>r\<rfloor> - 1 else - bitlen (\<lceil>1 / r\<rceil> - 1))"

definition roundHalfEven :: "real \<Rightarrow> int" where
  "roundHalfEven s =
     (let f = \<lfloor>s\<rfloor>;
          d = s - of_int f
      in if d < 1 / 2 then f
         else if 1 / 2 < d then f + 1
         else if even f then f else f + 1)"

text \<open>
  Rounding of \<open>r > 0\<close> to a format with \<open>p\<close> significant bits whose least unit in the last
  place is \<open>2 ^ qmin\<close> (below the normal range the unit stays \<open>2 ^ qmin\<close>).
\<close>

definition roundPos :: "nat \<Rightarrow> int \<Rightarrow> real \<Rightarrow> real" where
  "roundPos p qmin r =
     (let q = max (ilog2 r - (int p - 1)) qmin
      in of_int (roundHalfEven (r / pow2 q)) * pow2 q)"

text \<open>An infinity and a zero of the given sign.\<close>

definition infinity_n :: "bool \<Rightarrow> number" where
  "infinity_n negative = (if negative then NegInfinity else Infinity)"

definition zero_n :: "bool \<Rightarrow> number" where
  "zero_n negative = (if negative then NegZero else Num 0)"

text \<open>
  Rounding of an exact result \<open>r\<close> to a format whose largest exponent is \<open>emax\<close>: a result
  that rounds to nothing is a zero with the sign of \<open>r\<close>, and one that rounds to
  \<open>2 ^ (emax + 1)\<close> or more overflows to an infinity. \<open>negative\<close> is the sign of the zero
  when \<open>r\<close> is exactly 0.
\<close>

definition roundTo :: "nat \<Rightarrow> int \<Rightarrow> int \<Rightarrow> bool \<Rightarrow> real \<Rightarrow> number" where
  "roundTo p qmin emax negative r =
     (if r = 0 then zero_n negative
      else let m = roundPos p qmin \<bar>r\<bar>
           in if m = 0 then zero_n (r < 0)
              else if emax < ilog2 m then infinity_n (r < 0)
              else Num (if r < 0 then - m else m))"

definition roundDouble :: "bool \<Rightarrow> real \<Rightarrow> number" where
  "roundDouble = roundTo 53 (- 1074) 1023"

definition roundFloat32 :: "bool \<Rightarrow> real \<Rightarrow> number" where
  "roundFloat32 = roundTo 24 (- 149) 127"

text \<open>The sign bit of a number, and the value of a finite one.\<close>

fun sign_n :: "number \<Rightarrow> bool" where
  "sign_n (Num r) = (r < 0)"
| "sign_n NegZero = True"
| "sign_n Infinity = False"
| "sign_n NegInfinity = True"
| "sign_n NaN = False"

fun val_n :: "number \<Rightarrow> real option" where
  "val_n (Num r) = Some r"
| "val_n NegZero = Some 0"
| "val_n Infinity = None"
| "val_n NegInfinity = None"
| "val_n NaN = None"

text \<open>Unary minus, and the operators \<^verbatim>\<open>+\<close>, \<^verbatim>\<open>-\<close>, \<^verbatim>\<open>*\<close> and \<^verbatim>\<open>/\<close> on numbers.\<close>

fun neg_n :: "number \<Rightarrow> number" where
  "neg_n (Num r) = (if r = 0 then NegZero else Num (- r))"
| "neg_n NegZero = Num 0"
| "neg_n Infinity = NegInfinity"
| "neg_n NegInfinity = Infinity"
| "neg_n NaN = NaN"

definition add_n :: "number \<Rightarrow> number \<Rightarrow> number" where
  "add_n a b =
     (if a = NaN \<or> b = NaN then NaN
      else case (val_n a, val_n b) of
             (Some x, Some y) \<Rightarrow> roundDouble (sign_n a \<and> sign_n b) (x + y)
           | (Some x, None) \<Rightarrow> b
           | (None, Some y) \<Rightarrow> a
           | (None, None) \<Rightarrow> if a = b then a else NaN)"

definition sub_n :: "number \<Rightarrow> number \<Rightarrow> number" where
  "sub_n a b = add_n a (neg_n b)"

definition mul_n :: "number \<Rightarrow> number \<Rightarrow> number" where
  "mul_n a b =
     (if a = NaN \<or> b = NaN then NaN
      else case (val_n a, val_n b) of
             (Some x, Some y) \<Rightarrow> roundDouble (sign_n a \<noteq> sign_n b) (x * y)
           | (Some x, None) \<Rightarrow> if x = 0 then NaN else infinity_n (sign_n a \<noteq> sign_n b)
           | (None, Some y) \<Rightarrow> if y = 0 then NaN else infinity_n (sign_n a \<noteq> sign_n b)
           | (None, None) \<Rightarrow> infinity_n (sign_n a \<noteq> sign_n b))"

definition div_n :: "number \<Rightarrow> number \<Rightarrow> number" where
  "div_n a b =
     (if a = NaN \<or> b = NaN then NaN
      else case (val_n a, val_n b) of
             (Some x, Some y) \<Rightarrow>
               if y = 0 then (if x = 0 then NaN else infinity_n (sign_n a \<noteq> sign_n b))
               else roundDouble (sign_n a \<noteq> sign_n b) (x / y)
           | (Some x, None) \<Rightarrow> zero_n (sign_n a \<noteq> sign_n b)
           | (None, Some y) \<Rightarrow> infinity_n (sign_n a \<noteq> sign_n b)
           | (None, None) \<Rightarrow> NaN)"

text \<open>\<^verbatim>\<open>Math.floor\<close>.\<close>

fun floor_n :: "number \<Rightarrow> number" where
  "floor_n (Num r) = Num (of_int \<lfloor>r\<rfloor>)"
| "floor_n NegZero = NegZero"
| "floor_n Infinity = Infinity"
| "floor_n NegInfinity = NegInfinity"
| "floor_n NaN = NaN"

text \<open>
  The comparisons \<^verbatim>\<open><\<close>, \<^verbatim>\<open>>\<close> and \<^verbatim>\<open>===\<close>. Every comparison with NaN is false, and the
  two zeros are equal.
\<close>

definition lt_n :: "number \<Rightarrow> number \<Rightarrow> bool" where
  "lt_n a b =
     (case (val_n a, val_n b) of
        (Some x, Some y) \<Rightarrow> x < y
      | (Some x, None) \<Rightarrow> b = Infinity
      | (None, Some y) \<Rightarrow> a = NegInfinity
      | (None, None) \<Rightarrow> a = NegInfinity \<and> b = Infinity)"

definition gt_n :: "number \<Rightarrow> number \<Rightarrow> bool" where
  "gt_n a b = lt_n b a"

definition eq_n :: "number \<Rightarrow> number \<Rightarrow> bool" where
  "eq_n a b =
     (case (val_n a, val_n b) of
        (Some x, Some y) \<Rightarrow> x = y
      | (Some x, None) \<Rightarrow> False
      | (None, Some y) \<Rightarrow> False
      | (None, None) \<Rightarrow> a = b \<and> a \<noteq> NaN)"

text \<open>
  An integer of the source held in a number, the number that a decimal literal denotes,
  and the conversion of a number to single precision (what a store into a
  \<^verbatim>\<open>Float32Array\<close> does).
\<close>

definition ofInt :: "int \<Rightarrow> number" where
  "ofInt n = Num (of_int n)"

definition literal :: "real \<Rightarrow> number" where
  "literal r = roundDouble False r"

fun fround :: "number \<Rightarrow> number" where
  "fround (Num r) = roundFloat32 False r"
| "fround NegZero = NegZero"
| "fround Infinity = Infinity"
| "fround NegInfinity = NegInfinity"
| "fround NaN = NaN"

text \<open>
  A \<^verbatim>\<open>Float32Array\<close> is a list of numbers. A read outside it yields \<^verbatim>\<open>undefined\<close>, which
  every arithmetic operator and \<^verbatim>\<open>Math.floor\<close> convert to NaN; a store outside it is
  ignored.
\<close>

definition elementAt :: "number list \<Rightarrow> nat \<Rightarrow> number" where
  "elementAt points i = (if i < length points then points ! i else NaN)"

definition storeElement :: "number list \<Rightarrow> nat \<Rightarrow> number \<Rightarrow> number list" where
  "storeElement points i v = (if i < length points then points[i := fround v] else points)"

section \<open>BitSource\<close>

text \<open>
  \<^verbatim>\<open>BitSource.ts\<close>: a cursor (\<open>byteOffset\<close>, \<open>bitOffset\<close>) over a \<^verbatim>\<open>Uint8Array\<close>.
  The offsets are numbers of the source and are kept as \<open>int\<close>.
\<close>

record BitSource =
  bytes :: "8 word list"
  byteOffset :: int
  bitOffset :: int

definition newBitSource :: "8 word list \<Rightarrow> BitSource" where
  "newBitSource bs = \<lparr>bytes = bs, byteOffset = 0, bitOffset = 0\<rparr>"

definition available :: "BitSource \<Rightarrow> int" where
  "available s = 8 * (int (length (bytes s)) - byteOffset s) - bitOffset s"

text \<open>
  \<^verbatim>\<open>bytes[i]\<close> as the operand of a bitwise operator: a read outside the typed array is
  \<^verbatim>\<open>undefined\<close>, which the operator converts to 0.
\<close>

definition byteAt :: "8 word list \<Rightarrow> int \<Rightarrow> int32" where
  "byteAt bs i = (if 0 \<le> i \<and> i < int (length bs) then ucast (bs ! nat i) else 0)"

text \<open>The loop \<^verbatim>\<open>while (numBits >= 8)\<close> of \<^verbatim>\<open>readBits\<close>, on (result, byteOffset, numBits).\<close>

function readWholeBytes :: "8 word list \<Rightarrow> int32 \<Rightarrow> int \<Rightarrow> int \<Rightarrow> int32 \<times> int \<times> int" where
  "readWholeBytes bs result byteOff numBits =
     (if numBits \<ge> 8
      then readWholeBytes bs (shl result 8 OR (byteAt bs byteOff AND 0xFF)) (byteOff + 1) (numBits - 8)
      else (result, byteOff, numBits))"
  by pat_completeness auto
termination
  by (relation "measure (\<lambda>(bs, result, byteOff, numBits). nat numBits)") auto

declare readWholeBytes.simps [simp del]

text \<open>
  The first block of \<^verbatim>\<open>readBits\<close> (\<^verbatim>\<open>if (bitOffset > 0)\<close>): the rest of the current byte.
  It yields (result, numBits, bitOffset, byteOffset).
\<close>

definition readRemainder :: "BitSource \<Rightarrow> int \<Rightarrow> int32 \<times> int \<times> int \<times> int" where
  "readRemainder s numBits =
     (if bitOffset s > 0 then
        let bitsLeft = 8 - bitOffset s;
            toRead = (if numBits < bitsLeft then numBits else bitsLeft);
            bitsToNotRead = bitsLeft - toRead;
            mask = shl (shr 0xFF (8 - toRead)) bitsToNotRead;
            result = shr (byteAt (bytes s) (byteOffset s) AND mask) bitsToNotRead;
            numBits' = numBits - toRead;
            bitOff = bitOffset s + toRead
        in if bitOff = 8 then (result, numBits', 0, byteOffset s + 1)
           else (result, numBits', bitOff, byteOffset s)
      else (0, numBits, bitOffset s, byteOffset s))"

text \<open>
  The second block (\<^verbatim>\<open>if (numBits > 0)\<close>): whole bytes, then a partial byte. It yields
  (result, bitOffset, byteOffset).
\<close>

definition readRest :: "8 word list \<Rightarrow> int32 \<times> int \<times> int \<times> int \<Rightarrow> int32 \<times> int \<times> int" where
  "readRest bs st =
     (case st of (result, numBits, bitOff, byteOff) \<Rightarrow>
        if numBits > 0 then
          (case readWholeBytes bs result byteOff numBits of (result1, byteOff1, numBits1) \<Rightarrow>
             if numBits1 > 0 then
               let bitsToNotRead = 8 - numBits1;
                   mask = shl (shr 0xFF bitsToNotRead) bitsToNotRead
               in (shl result1 numBits1 OR shr (byteAt bs byteOff1 AND mask) bitsToNotRead,
                   bitOff + numBits1, byteOff1)
             else (result1, bitOff, byteOff1))
        else (result, bitOff, byteOff))"

text \<open>
  \<^verbatim>\<open>readBits\<close> returns the bits read, as the number that the 32-bit result denotes, and the
  advanced cursor; it throws when \<open>numBits\<close> is not in 1..32 or exceeds \<open>available\<close>.
\<close>

definition readBits :: "BitSource \<Rightarrow> int \<Rightarrow> exception + (int \<times> BitSource)" where
  "readBits s numBits =
     (if numBits < 1 \<or> numBits > 32 \<or> numBits > available s then Inl IllegalArgumentException
      else case readRest (bytes s) (readRemainder s numBits) of (result, bitOff, byteOff) \<Rightarrow>
        Inr (sint result, s\<lparr>bitOffset := bitOff, byteOffset := byteOff\<rparr>))"

text \<open>A sequence of \<^verbatim>\<open>readBits\<close> calls, stopping at the first one that throws.\<close>

fun readAll :: "BitSource \<Rightarrow> int list \<Rightarrow> exception + BitSource" where
  "readAll s [] = Inr s"
| "readAll s (n # ns) = (case readBits s n of Inl e \<Rightarrow> Inl e | Inr (r, s') \<Rightarrow> readAll s' ns)"

text \<open>The cursor invariant of the data model.\<close>

definition cursor_inv :: "BitSource \<Rightarrow> bool" where
  "cursor_inv s \<longleftrightarrow> 0 \<le> bitOffset s \<and> bitOffset s < 8 \<and> 0 \<le> byteOffset s \<and> available s \<ge> 0"

section \<open>PerspectiveTransform\<close>

text \<open>The class \<^verbatim>\<open>PerspectiveTransform\<close>; its nine coefficients are numbers.\<close>

record PerspectiveTransform =
  a11 :: number
  a21 :: number
  a31 :: number
  a12 :: number
  a22 :: number
  a32 :: number
  a13 :: number
  a23 :: number
  a33 :: number

text \<open>The private constructor, with the parameter order of the source.\<close>

definition newPerspectiveTransform ::
  "number \<Rightarrow> number \<Rightarrow> number \<Rightarrow> number \<Rightarrow> number \<Rightarrow> number \<Rightarrow> number \<Rightarrow> number \<Rightarrow> number
   \<Rightarrow> PerspectiveTransform" where
  "newPerspectiveTransform b11 b21 b31 b12 b22 b32 b13 b23 b33 =
     \<lparr>a11 = b11, a21 = b21, a31 = b31, a12 = b12, a22 = b22, a32 = b32,
      a13 = b13, a23 = b23, a33 = b33\<rparr>"

text \<open>
  \<^verbatim>\<open>squareToQuadrilateral\<close>. The operators associate to the left, so \<^verbatim>\<open>x0 - x1 + x2 - x3\<close>
  is \<^verbatim>\<open>((x0 - x1) + x2) - x3\<close>, each step rounded.
\<close>

definition squareToQuadrilateral ::
  "number \<Rightarrow> number \<Rightarrow> number \<Rightarrow> number \<Rightarrow> number \<Rightarrow> number \<Rightarrow> number \<Rightarrow> number
   \<Rightarrow> PerspectiveTransform" where
  "squareToQuadrilateral x0 y0 x1 y1 x2 y2 x3 y3 =
     (let dx3 = sub_n (add_n (sub_n x0 x1) x2) x3;
          dy3 = sub_n (add_n (sub_n y0 y1) y2) y3
      in if eq_n dx3 (Num 0) \<and> eq_n dy3 (Num 0) then
           newPerspectiveTransform (sub_n x1 x0) (sub_n x2 x1) x0
                                   (sub_n y1 y0) (sub_n y2 y1) y0
                                   (Num 0) (Num 0) (Num 1)
         else
           let dx1 = sub_n x1 x2;
               dx2 = sub_n x3 x2;
               dy1 = sub_n y1 y2;
               dy2 = sub_n y3 y2;
               denominator = sub_n (mul_n dx1 dy2) (mul_n dx2 dy1);
               b13 = div_n (sub_n (mul_n dx3 dy2) (mul_n dx2 dy3)) denominator;
               b23 = div_n (sub_n (mul_n dx1 dy3) (mul_n dx3 dy1)) denominator
           in newPerspectiveTransform
                (add_n (sub_n x1 x0) (mul_n b13 x1)) (add_n (sub_n x3 x0) (mul_n b23 x3)) x0
                (add_n (sub_n y1 y0) (mul_n b13 y1)) (add_n (sub_n y3 y0) (mul_n b23 y3)) y0
                b13 b23 (Num 1))"

definition buildAdjoint :: "PerspectiveTransform \<Rightarrow> PerspectiveTransform" where
  "buildAdjoint t =
     newPerspectiveTransform
       (sub_n (mul_n (a22 t) (a33 t)) (mul_n (a23 t) (a32 t)))
       (sub_n (mul_n (a23 t) (a31 t)) (mul_n (a21 t) (a33 t)))
       (sub_n (mul_n (a21 t) (a32 t)) (mul_n (a22 t) (a31 t)))
       (sub_n (mul_n (a13 t) (a32 t)) (mul_n (a12 t) (a33 t)))
       (sub_n (mul_n (a11 t) (a33 t)) (mul_n (a13 t) (a31 t)))
       (sub_n (mul_n (a12 t) (a31 t)) (mul_n (a11 t) (a32 t)))
       (sub_n (mul_n (a12 t) (a23 t)) (mul_n (a13 t) (a22 t)))
       (sub_n (mul_n (a13 t) (a21 t)) (mul_n (a11 t) (a23 t)))
       (sub_n (mul_n (a11 t) (a22 t)) (mul_n (a12 t) (a21 t)))"

definition times_t :: "PerspectiveTransform \<Rightarrow> PerspectiveTransform \<Rightarrow> PerspectiveTransform" where
  "times_t t other =
     newPerspectiveTransform
       (add_n (add_n (mul_n (a11 t) (a11 other)) (mul_n (a21 t) (a12 other))) (mul_n (a31 t) (a13 other)))
       (add_n (add_n (mul_n (a11 t) (a21 other)) (mul_n (a21 t) (a22 other))) (mul_n (a31 t) (a23 other)))
       (add_n (add_n (mul_n (a11 t) (a31 other)) (mul_n (a21 t) (a32 other))) (mul_n (a31 t) (a33 other)))
       (add_n (add_n (mul_n (a12 t) (a11 other)) (mul_n (a22 t) (a12 other))) (mul_n (a32 t) (a13 other)))
       (add_n (add_n (mul_n (a12 t) (a21 other)) (mul_n (a22 t) (a22 other))) (mul_n (a32 t) (a23 other)))
       (add_n (add_n (mul_n (a12 t) (a31 other)) (mul_n (a22 t) (a32 other))) (mul_n (a32 t) (a33 other)))
       (add_n (add_n (mul_n (a13 t) (a11 other)) (mul_n (a23 t) (a12 other))) (mul_n (a33 t) (a13 other)))
       (add_n (add_n (mul_n (a13 t) (a21 other)) (mul_n (a23 t) (a22 other))) (mul_n (a33 t) (a23 other)))
       (add_n (add_n (mul_n (a13 t) (a31 other)) (mul_n (a23 t) (a32 other))) (mul_n (a33 t) (a33 other)))"

definition quadrilateralToSquare ::
  "number \<Rightarrow> number \<Rightarrow> number \<Rightarrow> number \<Rightarrow> number \<Rightarrow> number \<Rightarrow> number \<Rightarrow> number
   \<Rightarrow> PerspectiveTransform" where
  "quadrilateralToSquare x0 y0 x1 y1 x2 y2 x3 y3 =
     buildAdjoint (squareToQuadrilateral x0 y0 x1 y1 x2 y2 x3 y3)"

definition quadrilateralToQuadrilateral ::
  "number \<Rightarrow> number \<Rightarrow> number \<Rightarrow> number \<Rightarrow> number \<Rightarrow> number \<Rightarrow> number \<Rightarrow> number \<Rightarrow>
   number \<Rightarrow> number \<Rightarrow> number \<Rightarrow> number \<Rightarrow> number \<Rightarrow> number \<Rightarrow> number \<Rightarrow> number
   \<Rightarrow> PerspectiveTransform" where
  "quadrilateralToQuadrilateral x0 y0 x1 y1 x2 y2 x3 y3 x0p y0p x1p y1p x2p y2p x3p y3p =
     (let qToS = quadrilateralToSquare x0 y0 x1 y1 x2 y2 x3 y3;
          sToQ = squareToQuadrilateral x0p y0p x1p y1p x2p y2p x3p y3p
      in times_t sToQ qToS)"

text \<open>
  \<^verbatim>\<open>transformPoints\<close> maps the interleaved buffer \<open>x0, y0, x1, y1, ...\<close> pair by pair and
  stores each coordinate back in single precision. In a buffer of odd length the last
  \<open>y\<close> is \<^verbatim>\<open>undefined\<close>, so the last \<open>x\<close> becomes NaN.
\<close>

fun transformPoints :: "PerspectiveTransform \<Rightarrow> number list \<Rightarrow> number list" where
  "transformPoints t [] = []"
| "transformPoints t [x] = [NaN]"
| "transformPoints t (x # y # points) =
     (let denominator = add_n (add_n (mul_n (a13 t) x) (mul_n (a23 t) y)) (a33 t)
      in fround (div_n (add_n (add_n (mul_n (a11 t) x) (mul_n (a21 t) y)) (a31 t)) denominator)
         # fround (div_n (add_n (add_n (mul_n (a12 t) x) (mul_n (a22 t) y)) (a32 t)) denominator)
         # transformPoints t points)"

section \<open>BitMatrix\<close>

text \<open>
  \<^verbatim>\<open>BitMatrix.ts\<close>. The packed storage is an \<^verbatim>\<open>Int32Array\<close>. Reading a typed array
  outside its bounds yields \<^verbatim>\<open>undefined\<close> (\<open>None\<close> below) and does not throw; a bitwise
  operator converts \<^verbatim>\<open>undefined\<close> to 0 (\<open>toInt32\<close>); writing outside the bounds is ignored.
\<close>

record BitMatrix =
  width :: int
  height :: int
  rowSize :: int
  bits :: "int32 list"

definition wordAt :: "int32 list \<Rightarrow> int \<Rightarrow> int32 option" where
  "wordAt ws i = (if 0 \<le> i \<and> i < int (length ws) then Some (ws ! nat i) else None)"

definition toInt32 :: "int32 option \<Rightarrow> int32" where
  "toInt32 v = (case v of None \<Rightarrow> 0 | Some w \<Rightarrow> w)"

definition storeAt :: "int32 list \<Rightarrow> int \<Rightarrow> int32 \<Rightarrow> int32 list" where
  "storeAt ws i w = (if 0 \<le> i \<and> i < int (length ws) then ws[nat i := w] else ws)"

text \<open>The constructor, called with a width and a height.\<close>

definition newBitMatrix :: "int \<Rightarrow> int \<Rightarrow> exception + BitMatrix" where
  "newBitMatrix w h =
     (if w < 1 \<or> h < 1 then Inl IllegalArgumentException
      else let rs = (w + 31) div 32
           in Inr \<lparr>width = w, height = h, rowSize = rs, bits = replicate (nat (rs * h)) 0\<rparr>)"

definition get :: "BitMatrix \<Rightarrow> int \<Rightarrow> int \<Rightarrow> bool" where
  "get m x y =
     (let offset = y * rowSize m + x div 32
      in (ushr (toInt32 (wordAt (bits m) offset)) (x AND 0x1f)) AND 1 \<noteq> 0)"

definition set_m :: "BitMatrix \<Rightarrow> int \<Rightarrow> int \<Rightarrow> BitMatrix" where
  "set_m m x y =
     (let offset = y * rowSize m + x div 32
      in m\<lparr>bits := storeAt (bits m) offset
                      (toInt32 (wordAt (bits m) offset) OR (shl 1 (x AND 0x1f) AND 0xFFFFFFFF))\<rparr>)"

subsection \<open>Text form\<close>

definition buildToString :: "BitMatrix \<Rightarrow> string \<Rightarrow> string \<Rightarrow> string \<Rightarrow> string" where
  "buildToString m setString unsetString lineSeparator =
     lineSeparator @
     concat (map (\<lambda>y. concat (map (\<lambda>x. if get m x y then setString else unsetString)
                                   [0..width m - 1]) @ lineSeparator)
                 [0..height m - 1])"

text \<open>\<^verbatim>\<open>toString\<close> with the default line separator \<^verbatim>\<open>'\n'\<close>.\<close>

definition toString_m :: "BitMatrix \<Rightarrow> string \<Rightarrow> string \<Rightarrow> string" where
  "toString_m m setString unsetString = buildToString m setString unsetString [CHR 0x0A]"

text \<open>
  The scanning loop of \<^verbatim>\<open>parseFromString\<close>. \<open>rest\<close> is the text from \<open>pos\<close> on, so that
  \<^verbatim>\<open>substring(pos, pos + n)\<close> is \<open>take n rest\<close> and the comparison of that substring
  with a token is \<open>startsWith\<close>; \<open>bs\<close> holds the entries of \<^verbatim>\<open>bits\<close>
  written so far, so that \<open>bitsPos\<close> is its length. The loop yields
  (bits, rowStartPos, rowLength, nRows). When the matching token is empty the source does
  not advance \<open>pos\<close> and never leaves the loop: the result is \<open>None\<close>.
\<close>

definition startsWith :: "string \<Rightarrow> string \<Rightarrow> bool" where
  "startsWith rest token \<longleftrightarrow> take (length token) rest = token"

function parseLoop ::
  "string \<Rightarrow> string \<Rightarrow> string \<Rightarrow> bool list \<Rightarrow> int \<Rightarrow> int \<Rightarrow> int \<Rightarrow>
   (exception + (bool list \<times> int \<times> int \<times> int)) option" where
  "parseLoop setString unsetString rest bs rowStartPos rowLength nRows =
     (if rest = [] then Some (Inr (bs, rowStartPos, rowLength, nRows))
      else if hd rest = CHR 0x0A \<or> hd rest = CHR 0x0D then
        (if int (length bs) > rowStartPos then
           (if rowLength = -1 then
              parseLoop setString unsetString (tl rest) bs (int (length bs))
                (int (length bs) - rowStartPos) (nRows + 1)
            else if int (length bs) - rowStartPos \<noteq> rowLength then
              Some (Inl IllegalArgumentException)
            else
              parseLoop setString unsetString (tl rest) bs (int (length bs)) rowLength (nRows + 1))
         else parseLoop setString unsetString (tl rest) bs rowStartPos rowLength nRows)
      else if startsWith rest setString then
        (if setString = [] then None
         else parseLoop setString unsetString (drop (length setString) rest) (bs @ [True])
                rowStartPos rowLength nRows)
      else if startsWith rest unsetString then
        (if unsetString = [] then None
         else parseLoop setString unsetString (drop (length unsetString) rest) (bs @ [False])
                rowStartPos rowLength nRows)
      else Some (Inl IllegalArgumentException))"
  by pat_completeness auto
termination
  by (relation "measure (\<lambda>(setString, unsetString, rest, bs, rowStartPos, rowLength, nRows). length rest)")
     auto

declare parseLoop.simps [simp del]

text \<open>The final loop of \<^verbatim>\<open>parseFromString\<close>, which sets the bits recorded as true.\<close>

function setParsedBits :: "BitMatrix \<Rightarrow> bool list \<Rightarrow> int \<Rightarrow> nat \<Rightarrow> BitMatrix" where
  "setParsedBits matrix bs rowLength i =
     (if i < length bs then
        setParsedBits (if bs ! i then set_m matrix (int i mod rowLength) (int i div rowLength)
                       else matrix) bs rowLength (i + 1)
      else matrix)"
  by pat_completeness auto
termination
  by (relation "measure (\<lambda>(matrix, bs, rowLength, i). length bs - i)") auto

declare setParsedBits.simps [simp del]

definition parseFromString :: "string \<Rightarrow> string \<Rightarrow> string \<Rightarrow> (exception + BitMatrix) option" where
  "parseFromString stringRepresentation setString unsetString =
     (case parseLoop setString unsetString stringRepresentation [] 0 (-1) 0 of
        None \<Rightarrow> None
      | Some (Inl e) \<Rightarrow> Some (Inl e)
      | Some (Inr (bs, rowStartPos, rowLength, nRows)) \<Rightarrow>
          let bitsPos = int (length bs)
          in if bitsPos > rowStartPos then
               (if rowLength = -1 then
                  (case newBitMatrix (bitsPos - rowStartPos) (nRows + 1) of
                     Inl e \<Rightarrow> Some (Inl e)
                   | Inr matrix \<Rightarrow> Some (Inr (setParsedBits matrix bs (bitsPos - rowStartPos) 0)))
                else if bitsPos - rowStartPos \<noteq> rowLength then Some (Inl IllegalArgumentException)
                else
                  (case newBitMatrix rowLength (nRows + 1) of
                     Inl e \<Rightarrow> Some (Inl e)
                   | Inr matrix \<Rightarrow> Some (Inr (setParsedBits matrix bs rowLength 0))))
             else
               (case newBitMatrix rowLength nRows of
                  Inl e \<Rightarrow> Some (Inl e)
                | Inr matrix \<Rightarrow> Some (Inr (setParsedBits matrix bs rowLength 0))))"

subsection \<open>Bounding box and corner queries\<close>

text \<open>
  The two bit-scan loops, \<open>bitpos\<close> being the variable \<^verbatim>\<open>bit\<close> of the source. \<open>scanUp theBits bitpos\<close> is
  \<^verbatim>\<open>while (((theBits << (31 - bit)) & 0xFFFFFFFF) === 0) bit++\<close> and \<open>scanDown theBits bitpos\<close> is
  \<^verbatim>\<open>while ((theBits >>> bit) === 0) bit--\<close>. On a zero word the condition holds for every
  \<open>bitpos\<close> and the loop does not end: the result is \<open>None\<close>.
\<close>

function scanUp :: "int32 \<Rightarrow> int \<Rightarrow> int option" where
  "scanUp theBits bitpos =
     (if theBits = 0 then None
      else if shl theBits (31 - bitpos) AND 0xFFFFFFFF = 0 then scanUp theBits (bitpos + 1)
      else Some bitpos)"
  by pat_completeness auto
termination
proof (relation "measure (\<lambda>(theBits, bitpos). nat ((31 - bitpos) mod 32))")
  fix theBits :: int32 and bitpos :: int
  assume nz: "theBits \<noteq> 0" and z: "shl theBits (31 - bitpos) AND 0xFFFFFFFF = 0"
  have "(31 - bitpos) mod 32 \<noteq> 0"
  proof
    assume "(31 - bitpos) mod 32 = 0"
    with z have "theBits AND 0xFFFFFFFF = 0" by (simp add: shl_def)
    moreover have "(0xFFFFFFFF :: int32) = - 1" by simp
    ultimately show False using nz by simp
  qed
  then have pos: "0 < (31 - bitpos) mod 32"
    using pos_mod_sign [of 32 "31 - bitpos"] by linarith
  have "(31 - (bitpos + 1)) mod 32 = ((31 - bitpos) mod 32 - 1) mod 32"
    by (simp add: mod_diff_left_eq algebra_simps)
  also have "\<dots> = (31 - bitpos) mod 32 - 1"
    using pos by (intro mod_pos_pos_trivial) simp_all
  finally have "(31 - (bitpos + 1)) mod 32 = (31 - bitpos) mod 32 - 1 \<and> 0 < (31 - bitpos) mod 32"
    using pos by simp
  then show "((theBits, bitpos + 1), (theBits, bitpos)) \<in> measure (\<lambda>(theBits, bitpos). nat ((31 - bitpos) mod 32))"
    by simp
qed simp

function scanDown :: "int32 \<Rightarrow> int \<Rightarrow> int option" where
  "scanDown theBits bitpos =
     (if theBits = 0 then None
      else if ushr theBits bitpos = 0 then scanDown theBits (bitpos - 1)
      else Some bitpos)"
  by pat_completeness auto
termination
proof (relation "measure (\<lambda>(theBits, bitpos). nat (bitpos mod 32))")
  fix theBits :: int32 and bitpos :: int
  assume nz: "theBits \<noteq> 0" and z: "ushr theBits bitpos = 0"
  have "bitpos mod 32 \<noteq> 0"
  proof
    assume "bitpos mod 32 = 0"
    with z nz show False by (simp add: ushr_def)
  qed
  then have pos: "0 < bitpos mod 32"
    using pos_mod_sign [of 32 bitpos] by linarith
  have "(bitpos - 1) mod 32 = (bitpos mod 32 - 1) mod 32"
    by (simp add: mod_diff_left_eq)
  also have "\<dots> = bitpos mod 32 - 1"
    using pos by (intro mod_pos_pos_trivial) simp_all
  finally have "(bitpos - 1) mod 32 = bitpos mod 32 - 1 \<and> 0 < bitpos mod 32"
    using pos by simp
  then show "((theBits, bitpos - 1), (theBits, bitpos)) \<in> measure (\<lambda>(theBits, bitpos). nat (bitpos mod 32))"
    by simp
qed simp

declare scanUp.simps [simp del] scanDown.simps [simp del]

text \<open>
  The body of the two nested loops of \<^verbatim>\<open>getEnclosingRectangle\<close>, on the state
  (left, top, right, bottom), whose current values are \<open>left0\<close>, \<open>top0\<close>, \<open>right0\<close>
  and \<open>bottom0\<close>. \<^verbatim>\<open>theBits !== 0\<close> also holds for \<^verbatim>\<open>undefined\<close>.
\<close>

definition rectStep :: "BitMatrix \<Rightarrow> int \<Rightarrow> int \<Rightarrow> int \<times> int \<times> int \<times> int \<Rightarrow> (int \<times> int \<times> int \<times> int) option" where
  "rectStep m y x32 st =
     (case st of (left0, top0, right0, bottom0) \<Rightarrow>
        let theBits = wordAt (bits m) (y * rowSize m + x32)
        in if theBits \<noteq> Some 0 then
             let top1 = (if y < top0 then y else top0);
                 bottom1 = (if y > bottom0 then y else bottom0)
             in case (if x32 * 32 < left0 then
                        map_option (\<lambda>bitpos. if x32 * 32 + bitpos < left0 then x32 * 32 + bitpos else left0)
                                   (scanUp (toInt32 theBits) 0)
                      else Some left0) of
                  None \<Rightarrow> None
                | Some left1 \<Rightarrow>
                    (case (if x32 * 32 + 31 > right0 then
                             map_option (\<lambda>bitpos. if x32 * 32 + bitpos > right0 then x32 * 32 + bitpos else right0)
                                        (scanDown (toInt32 theBits) 31)
                           else Some right0) of
                       None \<Rightarrow> None
                     | Some right1 \<Rightarrow> Some (left1, top1, right1, bottom1))
           else Some st)"

function rectCols :: "BitMatrix \<Rightarrow> int \<Rightarrow> int \<Rightarrow> int \<times> int \<times> int \<times> int \<Rightarrow> (int \<times> int \<times> int \<times> int) option" where
  "rectCols m y x32 st =
     (if x32 < rowSize m then
        (case rectStep m y x32 st of None \<Rightarrow> None | Some st1 \<Rightarrow> rectCols m y (x32 + 1) st1)
      else Some st)"
  by pat_completeness auto
termination
  by (relation "measure (\<lambda>(m, y, x32, st). nat (rowSize m - x32))") auto

function rectRows :: "BitMatrix \<Rightarrow> int \<Rightarrow> int \<times> int \<times> int \<times> int \<Rightarrow> (int \<times> int \<times> int \<times> int) option" where
  "rectRows m y st =
     (if y < height m then
        (case rectCols m y 0 st of None \<Rightarrow> None | Some st1 \<Rightarrow> rectRows m (y + 1) st1)
      else Some st)"
  by pat_completeness auto
termination
  by (relation "measure (\<lambda>(m, y, st). nat (height m - y))") auto

declare rectCols.simps [simp del] rectRows.simps [simp del]

text \<open>
  The three queries return \<open>None\<close> when the source does not return, \<open>Some None\<close> when it
  returns \<^verbatim>\<open>null\<close>, and otherwise the entries of the \<^verbatim>\<open>Int32Array\<close> it returns.
\<close>

definition getEnclosingRectangle :: "BitMatrix \<Rightarrow> int list option option" where
  "getEnclosingRectangle m =
     (case rectRows m 0 (width m, height m, -1, -1) of
        None \<Rightarrow> None
      | Some (left0, top0, right0, bottom0) \<Rightarrow>
          if right0 < left0 \<or> bottom0 < top0 then Some None
          else Some (Some [left0, top0, right0 - left0 + 1, bottom0 - top0 + 1]))"

text \<open>\<^verbatim>\<open>while (bitsOffset < bits.length && bits[bitsOffset] === 0) bitsOffset++\<close>\<close>

function skipZerosUp :: "int32 list \<Rightarrow> nat \<Rightarrow> nat" where
  "skipZerosUp ws bitsOffset =
     (if bitsOffset < length ws \<and> ws ! bitsOffset = 0 then skipZerosUp ws (bitsOffset + 1)
      else bitsOffset)"
  by pat_completeness auto
termination
  by (relation "measure (\<lambda>(ws, bitsOffset). length ws - bitsOffset)") auto

text \<open>\<^verbatim>\<open>while (bitsOffset >= 0 && bits[bitsOffset] === 0) bitsOffset--\<close>\<close>

function skipZerosDown :: "int32 list \<Rightarrow> int \<Rightarrow> int" where
  "skipZerosDown ws bitsOffset =
     (if bitsOffset \<ge> 0 \<and> wordAt ws bitsOffset = Some 0 then skipZerosDown ws (bitsOffset - 1)
      else bitsOffset)"
  by pat_completeness auto
termination
  by (relation "measure (\<lambda>(ws, bitsOffset). nat (bitsOffset + 1))") auto

declare skipZerosUp.simps [simp del] skipZerosDown.simps [simp del]

text \<open>
  In \<^verbatim>\<open>getTopLeftOnBit\<close> the source computes \<open>y\<close> as the quotient \<^verbatim>\<open>bitsOffset / rowSize\<close>
  without rounding; \<^verbatim>\<open>Int32Array.from\<close> then truncates it. For \<open>bitsOffset \<ge> 0\<close> and
  \<open>rowSize > 0\<close> the stored value is \<open>bitsOffset div rowSize\<close>, and \<^verbatim>\<open>%\<close> is \<open>mod\<close>.
\<close>

definition getTopLeftOnBit :: "BitMatrix \<Rightarrow> int list option option" where
  "getTopLeftOnBit m =
     (let bitsOffset = skipZerosUp (bits m) 0
      in if bitsOffset = length (bits m) then Some None
         else
           let y = int bitsOffset div rowSize m;
               x = (int bitsOffset mod rowSize m) * 32;
               theBits = bits m ! bitsOffset
           in map_option (\<lambda>bitpos. Some [x + bitpos, y]) (scanUp theBits 0))"

definition getBottomRightOnBit :: "BitMatrix \<Rightarrow> int list option option" where
  "getBottomRightOnBit m =
     (let bitsOffset = skipZerosDown (bits m) (int (length (bits m)) - 1)
      in if bitsOffset < 0 then Some None
         else
           let y = bitsOffset div rowSize m;
               x = (bitsOffset mod rowSize m) * 32;
               theBits = toInt32 (wordAt (bits m) bitsOffset)
           in map_option (\<lambda>bitpos. Some [x + bitpos, y]) (scanDown theBits 31))"

section \<open>BitArray\<close>

text \<open>
  Modelled from the spec: the class \<^verbatim>\<open>BitArray\<close> (\<^verbatim>\<open>./BitArray\<close>), which \<^verbatim>\<open>getRow\<close>,
  \<^verbatim>\<open>setRow\<close> and \<^verbatim>\<open>rotate180\<close> use, is not among the sources. The spec describes a row
  as a row-width bit sequence that keeps the word layout of a matrix row (32 bits to a word,
  least significant bit first), and \<^verbatim>\<open>rotate180\<close> as reversing the bit order within each
  row. Accordingly a \<open>BitArray\<close> holds its size and \<open>(size + 31) div 32\<close> words;
  \<open>setBulk a i w\<close> stores the word \<open>w\<close> that holds the bits from \<open>i\<close> on, \<open>clear_a\<close> zeroes
  the words, and \<open>reverse_a\<close> moves the bit at \<open>i\<close> to \<open>size - 1 - i\<close> for \<open>0 \<le> i < size\<close>,
  leaving no bit set beyond the size.
\<close>

record BitArray =
  size_a :: int
  bits_a :: "int32 list"

definition newBitArray :: "int \<Rightarrow> BitArray" where
  "newBitArray n = \<lparr>size_a = n, bits_a = replicate (nat ((n + 31) div 32)) 0\<rparr>"

definition getSize :: "BitArray \<Rightarrow> int" where
  "getSize a = size_a a"

definition getBitArray :: "BitArray \<Rightarrow> int32 list" where
  "getBitArray a = bits_a a"

definition clear_a :: "BitArray \<Rightarrow> BitArray" where
  "clear_a a = a\<lparr>bits_a := replicate (length (bits_a a)) 0\<rparr>"

definition setBulk :: "BitArray \<Rightarrow> int \<Rightarrow> int32 \<Rightarrow> BitArray" where
  "setBulk a i newBits = a\<lparr>bits_a := storeAt (bits_a a) (i div 32) newBits\<rparr>"

definition get_a :: "BitArray \<Rightarrow> int \<Rightarrow> bool" where
  "get_a a i \<longleftrightarrow> (ushr (toInt32 (wordAt (bits_a a) (i div 32))) (i AND 0x1f)) AND 1 \<noteq> 0"

definition reverse_a :: "BitArray \<Rightarrow> BitArray" where
  "reverse_a a =
     a\<lparr>bits_a :=
         map (\<lambda>k. horner_sum of_bool 2
                    (map (\<lambda>j. 32 * int k + int j < size_a a \<and>
                               get_a a (size_a a - 1 - (32 * int k + int j)))
                         [0..<32]))
             [0..<length (bits_a a)]\<rparr>"

section \<open>BitMatrix: rows and rotation\<close>

text \<open>
  \<^verbatim>\<open>System.arraycopy\<close>: \<^verbatim>\<open>while (c--) dest[j++] = src[i++]\<close>. With a negative length the
  counter never reaches 0 and the loop does not end (\<open>None\<close>). A value read outside the
  source is \<^verbatim>\<open>undefined\<close>, stored as 0.
\<close>

function arraycopy :: "int32 list \<Rightarrow> int \<Rightarrow> int32 list \<Rightarrow> int \<Rightarrow> int \<Rightarrow> int32 list option" where
  "arraycopy src srcPos dest destPos len =
     (if len < 0 then None
      else if len = 0 then Some dest
      else arraycopy src (srcPos + 1) (storeAt dest destPos (toInt32 (wordAt src srcPos)))
             (destPos + 1) (len - 1))"
  by pat_completeness auto
termination
  by (relation "measure (\<lambda>(src, srcPos, dest, destPos, len). nat len)") auto

text \<open>The loop of \<^verbatim>\<open>getRow\<close>, which copies the words of the row into the \<open>BitArray\<close>.\<close>

function getRowLoop :: "int32 list \<Rightarrow> int \<Rightarrow> int \<Rightarrow> BitArray \<Rightarrow> int \<Rightarrow> BitArray" where
  "getRowLoop ws offset rs row x =
     (if x < rs then
        getRowLoop ws offset rs (setBulk row (x * 32) (toInt32 (wordAt ws (offset + x)))) (x + 1)
      else row)"
  by pat_completeness auto
termination
  by (relation "measure (\<lambda>(ws, offset, rs, row, x). nat (rs - x))") auto

declare arraycopy.simps [simp del] getRowLoop.simps [simp del]

text \<open>\<^verbatim>\<open>getRow\<close>, called with a \<open>BitArray\<close> (as \<^verbatim>\<open>rotate180\<close> does).\<close>

definition getRow :: "BitMatrix \<Rightarrow> int \<Rightarrow> BitArray \<Rightarrow> BitArray" where
  "getRow m y row =
     (let row1 = (if getSize row < width m then newBitArray (width m) else clear_a row)
      in getRowLoop (bits m) (y * rowSize m) (rowSize m) row1 0)"

definition setRow :: "BitMatrix \<Rightarrow> int \<Rightarrow> BitArray \<Rightarrow> BitMatrix option" where
  "setRow m y row =
     map_option (\<lambda>ws. m\<lparr>bits := ws\<rparr>)
       (arraycopy (getBitArray row) 0 (bits m) (y * rowSize m) (rowSize m))"

text \<open>
  The loop of \<^verbatim>\<open>rotate180\<close>; \<open>h\<close> is the height read before the loop and \<open>len\<close> is
  \<open>(h + 1) div 2\<close>.
\<close>

function rotateLoop :: "BitMatrix \<Rightarrow> int \<Rightarrow> BitArray \<Rightarrow> BitArray \<Rightarrow> int \<Rightarrow> int \<Rightarrow> BitMatrix option" where
  "rotateLoop m h topRow bottomRow i len =
     (if i < len then
        let topRow1 = getRow m i topRow;
            bottomRow1 = getRow m (h - 1 - i) bottomRow;
            topRow2 = reverse_a topRow1;
            bottomRow2 = reverse_a bottomRow1
        in case setRow m i bottomRow2 of
             None \<Rightarrow> None
           | Some m1 \<Rightarrow>
               (case setRow m1 (h - 1 - i) topRow2 of
                  None \<Rightarrow> None
                | Some m2 \<Rightarrow> rotateLoop m2 h topRow2 bottomRow2 (i + 1) len)
      else Some m)"
  by pat_completeness auto
termination
  by (relation "measure (\<lambda>(m, h, topRow, bottomRow, i, len). nat (len - i))") auto

declare rotateLoop.simps [simp del]

definition rotate180 :: "BitMatrix \<Rightarrow> BitMatrix option" where
  "rotate180 m =
     (let w = width m;
          h = height m;
          topRow = newBitArray w;
          bottomRow = newBitArray w
      in rotateLoop m h topRow bottomRow 0 ((h + 1) div 2))"

section \<open>GridSampler\<close>

text \<open>
  \<^verbatim>\<open>GridSampler.checkAndNudgePoints\<close>. The buffer of points is a \<^verbatim>\<open>Float32Array\<close> in the
  interleaved layout. \<open>nudgePoint\<close> is the body that the two loops of the source share;
  it yields the buffer and the flag \<open>nudged\<close>. The stores \<^verbatim>\<open>points[offset] = width - 1\<close>
  and \<^verbatim>\<open>points[offset + 1] = height - 1\<close> convert to single precision.
\<close>

definition nudgePoint :: "int \<Rightarrow> int \<Rightarrow> number list \<Rightarrow> nat \<Rightarrow> exception + (number list \<times> bool)" where
  "nudgePoint w h points offset =
     (let x = floor_n (elementAt points offset);
          y = floor_n (elementAt points (offset + 1))
      in if lt_n x (Num (- 1)) \<or> gt_n x (ofInt w) \<or> lt_n y (Num (- 1)) \<or> gt_n y (ofInt h)
         then Inl NotFoundException
         else
           let (points1, nudged1) =
                 (if eq_n x (Num (- 1)) then (storeElement points offset (Num 0), True)
                  else if eq_n x (ofInt w)
                  then (storeElement points offset (sub_n (ofInt w) (Num 1)), True)
                  else (points, False))
           in if eq_n y (Num (- 1)) then Inr (storeElement points1 (offset + 1) (Num 0), True)
              else if eq_n y (ofInt h)
              then Inr (storeElement points1 (offset + 1) (sub_n (ofInt h) (Num 1)), True)
              else Inr (points1, nudged1))"

function nudgeFromStart :: "int \<Rightarrow> int \<Rightarrow> number list \<Rightarrow> nat \<Rightarrow> bool \<Rightarrow> exception + number list" where
  "nudgeFromStart w h points offset nudged =
     (if offset < length points \<and> nudged then
        (case nudgePoint w h points offset of
           Inl e \<Rightarrow> Inl e
         | Inr (points1, nudged1) \<Rightarrow>
             nudgeFromStart w h points1 (offset + 2) nudged1)
      else Inr points)"
  by pat_completeness auto
termination
proof (relation "measure (\<lambda>(w, h, points, offset, nudged). length points - offset)")
  fix w h :: int and points points1 :: "number list" and offset :: nat and nudged nudged1 :: bool
    and x2 :: "number list \<times> bool"
  assume a: "offset < length points \<and> nudged" and b: "nudgePoint w h points offset = Inr x2"
    and c: "(points1, nudged1) = x2"
  from b c have "length points1 = length points"
    by (auto simp: nudgePoint_def storeElement_def Let_def split: if_splits)
  with a show "((w, h, points1, offset + 2, nudged1), (w, h, points, offset, nudged))
        \<in> measure (\<lambda>(w, h, points, offset, nudged). length points - offset)"
    by auto
qed simp

function nudgeFromEnd :: "int \<Rightarrow> int \<Rightarrow> number list \<Rightarrow> int \<Rightarrow> bool \<Rightarrow> exception + number list" where
  "nudgeFromEnd w h points offset nudged =
     (if offset \<ge> 0 \<and> nudged then
        (case nudgePoint w h points (nat offset) of
           Inl e \<Rightarrow> Inl e
         | Inr (points1, nudged1) \<Rightarrow> nudgeFromEnd w h points1 (offset - 2) nudged1)
      else Inr points)"
  by pat_completeness auto
termination
  by (relation "measure (\<lambda>(w, h, points, offset, nudged). nat (offset + 2))") auto

declare nudgeFromStart.simps [simp del] nudgeFromEnd.simps [simp del]

definition checkAndNudgePoints :: "BitMatrix \<Rightarrow> number list \<Rightarrow> exception + number list" where
  "checkAndNudgePoints img points =
     (case nudgeFromStart (width img) (height img) points 0 True of
        Inl e \<Rightarrow> Inl e
      | Inr points1 \<Rightarrow>
          nudgeFromEnd (width img) (height img) points1 (int (length points1) - 2) True)"

section \<open>DefaultGridSampler\<close>

text \<open>
  The loop that fills the buffer with the sample points of row \<open>y\<close>; \<open>iValue\<close> is
  \<^verbatim>\<open>y + 0.5\<close>.
\<close>

function fillPoints :: "number list \<Rightarrow> number \<Rightarrow> nat \<Rightarrow> number list" where
  "fillPoints points iValue x =
     (if x < length points then
        fillPoints
          (storeElement (storeElement points x (add_n (ofInt (int (x div 2))) (Num 0.5)))
             (x + 1) iValue)
          iValue (x + 2)
      else points)"
  by pat_completeness auto
termination
  by (relation "measure (\<lambda>(points, iValue, x). length points - x)")
     (auto simp: storeElement_def)

text \<open>
  \<^verbatim>\<open>image.get\<close> called with two results of \<^verbatim>\<open>Math.floor\<close>, which are whole numbers,
  infinities or NaN. With an infinity or NaN the word index \<^verbatim>\<open>y * rowSize + Math.floor(x / 32)\<close>
  is an infinity or NaN, the read yields \<^verbatim>\<open>undefined\<close> and the bit reads as clear. With
  two whole numbers it is \<open>get\<close> at these integers.
\<close>

definition getAt :: "BitMatrix \<Rightarrow> number \<Rightarrow> number \<Rightarrow> bool" where
  "getAt img x y =
     (case (val_n x, val_n y) of
        (Some a, Some b) \<Rightarrow> get img \<lfloor>a\<rfloor> \<lfloor>b\<rfloor>
      | (Some a, None) \<Rightarrow> False
      | (None, Some b) \<Rightarrow> False
      | (None, None) \<Rightarrow> False)"

text \<open>
  The loop inside \<^verbatim>\<open>try\<close>. \<^verbatim>\<open>BitMatrix.get\<close> and \<^verbatim>\<open>BitMatrix.set\<close> do not throw (they
  read and write a typed array), so the \<^verbatim>\<open>catch\<close> clause is never entered and has no
  counterpart here.
\<close>

function samplePoints :: "BitMatrix \<Rightarrow> number list \<Rightarrow> BitMatrix \<Rightarrow> int \<Rightarrow> nat \<Rightarrow> BitMatrix" where
  "samplePoints img points bits0 y x =
     (if x < length points then
        samplePoints img points
          (if getAt img (floor_n (elementAt points x)) (floor_n (elementAt points (x + 1)))
           then set_m bits0 (int (x div 2)) y else bits0)
          y (x + 2)
      else bits0)"
  by pat_completeness auto
termination
  by (relation "measure (\<lambda>(img, points, bits0, y, x). length points - x)") auto

declare fillPoints.simps [simp del] samplePoints.simps [simp del]

text \<open>The loop over the rows of the grid.\<close>

function sampleRows ::
  "BitMatrix \<Rightarrow> int \<Rightarrow> PerspectiveTransform \<Rightarrow> BitMatrix \<Rightarrow> number list \<Rightarrow> int \<Rightarrow>
   exception + BitMatrix" where
  "sampleRows img dimensionY transform bits0 points y =
     (if y < dimensionY then
        (let points1 = transformPoints transform
                         (fillPoints points (add_n (ofInt y) (Num 0.5)) 0)
         in case checkAndNudgePoints img points1 of
              Inl e \<Rightarrow> Inl e
            | Inr points2 \<Rightarrow>
                sampleRows img dimensionY transform (samplePoints img points2 bits0 y 0)
                  points2 (y + 1))
      else Inr bits0)"
  by pat_completeness auto
termination
  by (relation "measure (\<lambda>(img, dimensionY, transform, bits0, points, y). nat (dimensionY - y))") auto

declare sampleRows.simps [simp del]

definition sampleGridWithTransform ::
  "BitMatrix \<Rightarrow> int \<Rightarrow> int \<Rightarrow> PerspectiveTransform \<Rightarrow> exception + BitMatrix" where
  "sampleGridWithTransform img dimensionX dimensionY transform =
     (if dimensionX \<le> 0 \<or> dimensionY \<le> 0 then Inl NotFoundException
      else case newBitMatrix dimensionX dimensionY of
             Inl e \<Rightarrow> Inl e
           | Inr bits0 \<Rightarrow>
               sampleRows img dimensionY transform bits0
                 (replicate (nat (2 * dimensionX)) (Num 0)) 0)"

text \<open>\<^verbatim>\<open>sampleGrid\<close> builds the transform and calls \<^verbatim>\<open>sampleGridWithTransform\<close>.\<close>

definition sampleGrid ::
  "BitMatrix \<Rightarrow> int \<Rightarrow> int \<Rightarrow>
   number \<Rightarrow> number \<Rightarrow> number \<Rightarrow> number \<Rightarrow> number \<Rightarrow> number \<Rightarrow> number \<Rightarrow> number \<Rightarrow>
   number \<Rightarrow> number \<Rightarrow> number \<Rightarrow> number \<Rightarrow> number \<Rightarrow> number \<Rightarrow> number \<Rightarrow> number \<Rightarrow>
   exception + BitMatrix" where
  "sampleGrid img dimensionX dimensionY p1ToX p1ToY p2ToX p2ToY p3ToX p3ToY p4ToX p4ToY
     p1FromX p1FromY p2FromX p2FromY p3FromX p3FromY p4FromX p4FromY =
     (let transform = quadrilateralToQuadrilateral
             p1ToX p1ToY p2ToX p2ToY p3ToX p3ToY p4ToX p4ToY
             p1FromX p1FromY p2FromX p2FromY p3FromX p3FromY p4FromX p4FromY
      in sampleGridWithTransform img dimensionX dimensionY transform)"

section \<open>Terms of the properties\<close>

text \<open>
  A matrix as the two-argument constructor lays it out: positive dimensions, the row size
  derived from the width, and one word for every 32 columns of every row.
\<close>

definition wellFormed :: "BitMatrix \<Rightarrow> bool" where
  "wellFormed m \<longleftrightarrow>
     1 \<le> width m \<and> 1 \<le> height m \<and> rowSize m = (width m + 31) div 32 \<and>
     int (length (bits m)) = rowSize m * height m"

text \<open>
  The bits of the last word of a row that lie beyond the width are clear. The constructor
  establishes this, and \<open>set_m\<close> with coordinates inside the matrix keeps it.
\<close>

definition paddingClear :: "BitMatrix \<Rightarrow> bool" where
  "paddingClear m \<longleftrightarrow>
     (\<forall>y \<in> {0..<height m}. \<forall>x \<in> {width m..<32 * rowSize m}. \<not> get m x y)"

text \<open>
  For \<open>checkAndNudgePoints\<close>, on the point at index \<open>k\<close> of an interleaved buffer:
  \<open>farOutside\<close> says that it lies more than one unit outside the image (the condition on
  which the source throws), \<open>needsNudge\<close> that one of its floor coordinates is \<open>-1\<close>, the
  width or the height, and \<open>clamped\<close> is the point moved onto the nearest valid edge.
\<close>

definition pointAt :: "number list \<Rightarrow> nat \<Rightarrow> number \<times> number" where
  "pointAt points k = (points ! (2 * k), points ! (2 * k + 1))"

definition farOutside :: "int \<Rightarrow> int \<Rightarrow> number \<times> number \<Rightarrow> bool" where
  "farOutside w h p \<longleftrightarrow>
     lt_n (floor_n (fst p)) (Num (- 1)) \<or> gt_n (floor_n (fst p)) (ofInt w) \<or>
     lt_n (floor_n (snd p)) (Num (- 1)) \<or> gt_n (floor_n (snd p)) (ofInt h)"

definition needsNudge :: "int \<Rightarrow> int \<Rightarrow> number \<times> number \<Rightarrow> bool" where
  "needsNudge w h p \<longleftrightarrow>
     eq_n (floor_n (fst p)) (Num (- 1)) \<or> eq_n (floor_n (fst p)) (ofInt w) \<or>
     eq_n (floor_n (snd p)) (Num (- 1)) \<or> eq_n (floor_n (snd p)) (ofInt h)"

definition clampCoord :: "int \<Rightarrow> number \<Rightarrow> number" where
  "clampCoord n v =
     (if eq_n (floor_n v) (Num (- 1)) then Num 0
      else if eq_n (floor_n v) (ofInt n) then ofInt (n - 1)
      else v)"

definition clamped :: "int \<Rightarrow> int \<Rightarrow> number \<times> number \<Rightarrow> number \<times> number" where
  "clamped w h p = (clampCoord w (fst p), clampCoord h (snd p))"

text \<open>
  The scan from the start reaches the point \<open>k\<close> when every point before it needed a nudge,
  and the scan from the end reaches it when every point after it did.
\<close>

definition reached :: "int \<Rightarrow> int \<Rightarrow> number list \<Rightarrow> nat \<Rightarrow> bool" where
  "reached w h points k \<longleftrightarrow>
     (\<forall>i \<in> {0..<k}. needsNudge w h (pointAt points i)) \<or>
     (\<forall>i \<in> {k + 1..<length points div 2}. needsNudge w h (pointAt points i))"

text \<open>
  The two halves of \<open>reached\<close>, for a scan that starts at the point \<open>k\<close> and for one
  that starts below the point \<open>c\<close>.
\<close>

definition fwdReach :: "int \<Rightarrow> int \<Rightarrow> number list \<Rightarrow> nat \<Rightarrow> nat \<Rightarrow> bool" where
  "fwdReach w h ps k j \<longleftrightarrow> k \<le> j \<and> (\<forall>i. k \<le> i \<and> i < j \<longrightarrow> needsNudge w h (pointAt ps i))"

definition bwdReach :: "int \<Rightarrow> int \<Rightarrow> number list \<Rightarrow> nat \<Rightarrow> nat \<Rightarrow> bool" where
  "bwdReach w h ps c j \<longleftrightarrow> j < c \<and> (\<forall>i. j < i \<and> i < c \<longrightarrow> needsNudge w h (pointAt ps i))"

text \<open>
  For the text form. A line break is one of the two characters at which
  \<open>parseFromString\<close> ends a row. The tokens are usable when they are not empty, neither is
  a prefix of the other and neither begins with a line break.
\<close>

definition lineBreak :: "char \<Rightarrow> bool" where
  "lineBreak c \<longleftrightarrow> c = CHR 0x0A \<or> c = CHR 0x0D"

definition tokensOk :: "string \<Rightarrow> string \<Rightarrow> bool" where
  "tokensOk setString unsetString \<longleftrightarrow>
     setString \<noteq> [] \<and> unsetString \<noteq> [] \<and>
     \<not> prefix setString unsetString \<and> \<not> prefix unsetString setString \<and>
     \<not> lineBreak (hd setString) \<and> \<not> lineBreak (hd unsetString)"

text \<open>
  The text of one row of bits, and of a list of rows each ended by \<^verbatim>\<open>'\n'\<close>; the rows of
  a matrix.
\<close>

definition renderRow :: "string \<Rightarrow> string \<Rightarrow> bool list \<Rightarrow> string" where
  "renderRow setString unsetString row =
     concat (map (\<lambda>b. if b then setString else unsetString) row)"

definition renderRows :: "string \<Rightarrow> string \<Rightarrow> bool list list \<Rightarrow> string" where
  "renderRows setString unsetString rows =
     concat (map (\<lambda>row. renderRow setString unsetString row @ [CHR 0x0A]) rows)"

definition rowsOf :: "BitMatrix \<Rightarrow> bool list list" where
  "rowsOf m = map (\<lambda>y. map (\<lambda>x. get m x y) [0..width m - 1]) [0..height m - 1]"

text \<open>
  The text is unrecognised at its start: it is not empty, does not begin with a line break
  and matches neither token.
\<close>

definition unrecognised :: "string \<Rightarrow> string \<Rightarrow> string \<Rightarrow> bool" where
  "unrecognised setString unsetString rest \<longleftrightarrow>
     rest \<noteq> [] \<and> \<not> lineBreak (hd rest) \<and>
     \<not> startsWith rest setString \<and> \<not> startsWith rest unsetString"

text \<open>
  The row length that the parser holds after a list of rows, starting from \<open>rowLength\<close>
  (\<open>-1\<close> before the first row that is not empty), or \<open>None\<close> when a row differs in length
  from the rows before it. Empty rows are skipped.
\<close>

fun scanRows :: "int \<Rightarrow> bool list list \<Rightarrow> int option" where
  "scanRows rowLength [] = Some rowLength"
| "scanRows rowLength (row # rows) =
     (if row = [] then scanRows rowLength rows
      else if rowLength = -1 then scanRows (int (length row)) rows
      else if int (length row) \<noteq> rowLength then None
      else scanRows rowLength rows)"

text \<open>
  The bit at column \<open>x\<close> of row \<open>y\<close> of the matrix turned by 180 degrees: the bit of \<open>m\<close>
  at column \<open>width - 1 - x\<close> of row \<open>height - 1 - y\<close>, and no bit beyond the width.
\<close>

definition rotated :: "BitMatrix \<Rightarrow> int \<Rightarrow> int \<Rightarrow> bool" where
  "rotated m x y \<longleftrightarrow> x < width m \<and> get m (width m - 1 - x) (height m - 1 - y)"

section \<open>Properties\<close>

subsection \<open>Numbers\<close>

text \<open>
  Rules that evaluate the operations on numbers and on buffers at concrete arguments.
\<close>

lemma Let_value:
  "Let (Num r) f = f (Num r)" "Let NegZero f = f NegZero" "Let Infinity f = f Infinity"
  "Let NegInfinity f = f NegInfinity" "Let NaN f = f NaN"
  "Let (numeral k / numeral l :: real) g = g (numeral k / numeral l)"
  "Let (- x :: real) g = g (- x)"
  by (simp_all add: Let_def)

lemmas num_ops = add_n_def sub_n_def mul_n_def div_n_def roundDouble_def roundFloat32_def
  roundTo_def roundPos_def ilog2_def pow2_def roundHalfEven_def zero_n_def infinity_n_def
  literal_def ofInt_def compute_bitlen Let_value

lemmas num_eval = add_n_def sub_n_def mul_n_def div_n_def roundDouble_def roundFloat32_def
  roundTo_def roundPos_def ilog2_def pow2_def roundHalfEven_def Let_def zero_n_def infinity_n_def
  literal_def ofInt_def compute_bitlen

lemma list_update_numeral: "(x # xs)[numeral n := y] = x # xs[pred_numeral n := y]"
  by (simp add: numeral_eq_Suc)

lemma replicate_numeral: "replicate (numeral n) x = x # replicate (pred_numeral n) x"
  by (simp add: numeral_eq_Suc)

lemmas buf_eval = elementAt_def storeElement_def eq_n_def lt_n_def gt_n_def
  list_update_numeral replicate_numeral

lemmas sampler_eval = fillPoints.simps nudgePoint_def nudgeFromStart.simps nudgeFromEnd.simps
  checkAndNudgePoints_def samplePoints.simps sampleRows.simps sampleGridWithTransform_def
  getAt_def newBitMatrix_def

text \<open>
  A whole number of at most \<open>p\<close> bits, or \<open>2 ^ p\<close>, is a value of a format with \<open>p\<close>
  significant bits, so rounding leaves it as it is.
\<close>

lemma roundHalfEven_of_int: "roundHalfEven (of_int j) = j"
  by (simp add: roundHalfEven_def)

lemma ilog2_of_int:
  assumes "1 \<le> k"
  shows "ilog2 (of_int k) = bitlen k - 1"
  using assms by (simp add: ilog2_def)

lemma bitlen_le:
  assumes "0 < k" "k < 2 ^ n"
  shows "bitlen k \<le> int n"
proof -
  from bitlen_bounds [OF assms(1)] have "(2::int) ^ nat (bitlen k - 1) \<le> k" by simp
  also note assms(2)
  finally have "(2::int) ^ nat (bitlen k - 1) < 2 ^ n" .
  then have "nat (bitlen k - 1) < n" by simp
  then show ?thesis by simp
qed

lemma roundPos_of_int:
  assumes k: "1 \<le> k" "k \<le> 2 ^ p" and p: "1 \<le> p" and q: "qmin \<le> 0"
  shows "roundPos p qmin (of_int k) = of_int k"
proof (cases "k = 2 ^ p")
  case True
  have "bitlen 1 = 1" by (subst compute_bitlen) simp
  then have "bitlen k = int p + 1" using bitlen_pow2 [of 1 p] by (simp add: True)
  then have e: "ilog2 (of_int k) = int p" using k(1) by (simp add: ilog2_of_int)
  have "max (ilog2 (real_of_int k) - (int p - 1)) qmin = 1" using q by (simp add: e)
  moreover have "real_of_int k / 2 = of_int (2 ^ (p - 1))"
    using p by (simp add: True power_eq_if)
  ultimately show ?thesis
    by (simp add: roundPos_def pow2_def roundHalfEven_of_int Let_def del: of_int_power)
next
  case False
  with k have lt: "k < 2 ^ p" by simp
  from k(1) have pos: "0 < k" by simp
  define e where "e = ilog2 (of_int k)"
  have "e \<le> int p - 1" using bitlen_le [OF pos lt] k(1) by (simp add: e_def ilog2_of_int)
  then have q0: "max (e - (int p - 1)) qmin \<le> 0" using q by simp
  define n where "n = nat (- max (e - (int p - 1)) qmin)"
  have pw: "pow2 (max (e - (int p - 1)) qmin) = 1 / 2 ^ n"
  proof (cases "max (e - (int p - 1)) qmin = 0")
    case True
    then show ?thesis by (simp add: pow2_def n_def)
  next
    case False
    with q0 show ?thesis by (simp add: pow2_def n_def)
  qed
  have "real_of_int k / (1 / 2 ^ n) = of_int (k * 2 ^ n)" by simp
  then have "roundHalfEven (real_of_int k / (1 / 2 ^ n)) = k * 2 ^ n"
    by (simp only: roundHalfEven_of_int)
  then show ?thesis
    by (simp add: roundPos_def Let_def e_def [symmetric] pw)
qed

lemma roundTo_of_int:
  assumes k: "1 \<le> k" "k \<le> 2 ^ p" and p: "1 \<le> p" "int p \<le> emax" and q: "qmin \<le> 0"
  shows "roundTo p qmin emax negative (of_int k) = Num (of_int k)"
proof -
  from k(1) have pos: "0 < k" by simp
  have "k < 2 ^ (p + 1)" using k(2) by (smt (verit) power_strict_increasing_iff less_add_one)
  from bitlen_le [OF pos this] have "bitlen k - 1 \<le> int p" by simp
  with p(2) have "\<not> emax < ilog2 (of_int k)" using k(1) by (simp add: ilog2_of_int)
  moreover have "roundPos p qmin \<bar>real_of_int k\<bar> = of_int k"
    using roundPos_of_int [OF k p(1) q] k(1) by simp
  ultimately show ?thesis using k(1) by (simp add: roundTo_def Let_def)
qed

lemma fround_ofInt:
  assumes "0 \<le> k" "k \<le> 2 ^ 24"
  shows "fround (ofInt k) = ofInt k"
proof (cases "k = 0")
  case True
  then show ?thesis by (simp add: ofInt_def roundFloat32_def roundTo_def zero_n_def)
next
  case False
  with assms have "1 \<le> k" by simp
  from roundTo_of_int [OF this assms(2), of 127 "- 149" False]
  show ?thesis by (simp add: ofInt_def roundFloat32_def)
qed

lemma ofInt_minus_one:
  assumes "1 \<le> n" "n \<le> 2 ^ 53 + 1"
  shows "sub_n (ofInt n) (Num 1) = ofInt (n - 1)"
proof (cases "n = 1")
  case True
  then show ?thesis by (simp add: sub_n_def add_n_def ofInt_def roundDouble_def roundTo_def zero_n_def)
next
  case False
  with assms have k: "1 \<le> n - 1" "n - 1 \<le> 2 ^ 53" by simp_all
  from roundTo_of_int [OF k, of 1023 "- 1074" False]
  show ?thesis using assms(1) by (simp add: sub_n_def add_n_def ofInt_def roundDouble_def)
qed

lemma store_edge:
  assumes "1 \<le> n" "n \<le> 2 ^ 24 + 1"
  shows "fround (sub_n (ofInt n) (Num 1)) = ofInt (n - 1)"
proof -
  have "n \<le> 2 ^ 53 + 1" using assms(2) by simp
  from ofInt_minus_one [OF assms(1) this] fround_ofInt [of "n - 1"] assms
  show ?thesis by simp
qed

lemma roundFloat32_zero: "roundFloat32 False 0 = Num 0"
  by (simp add: roundFloat32_def roundTo_def zero_n_def)

subsection \<open>BitSource\<close>

lemma readWholeBytes_spec:
  "0 \<le> numBits \<Longrightarrow> readWholeBytes bs res byteOff numBits = (r, bo, nb) \<Longrightarrow>
     bo = byteOff + numBits div 8 \<and> nb = numBits mod 8"
proof (induction bs res byteOff numBits rule: readWholeBytes.induct)
  case (1 bs result byteOff numBits)
  show ?case
  proof (cases "numBits \<ge> 8")
    case True
    with "1.prems"
    have "readWholeBytes bs (shl result 8 OR (byteAt bs byteOff AND 0xFF)) (byteOff + 1) (numBits - 8)
            = (r, bo, nb)"
      by (simp add: readWholeBytes.simps [of bs result byteOff numBits])
    with "1.IH" [OF True] True
    have "bo = byteOff + 1 + (numBits - 8) div 8 \<and> nb = (numBits - 8) mod 8"
      by simp
    then show ?thesis by presburger
  next
    case False
    with "1.prems" show ?thesis
      by (simp add: readWholeBytes.simps [of bs result byteOff numBits])
  qed
qed

lemma readRemainder_spec:
  assumes "0 < bitOffset s \<or> bitOffset s = 0" "bitOffset s < 8" "1 \<le> numBits"
    and "readRemainder s numBits = (r, nb, bi, by)"
  shows "0 \<le> nb \<and> 0 \<le> bi \<and> bi < 8 \<and> (nb > 0 \<longrightarrow> bi = 0) \<and> byteOffset s \<le> by \<and>
         8 * by + bi + nb = 8 * byteOffset s + bitOffset s + numBits"
  using assms by (auto simp: readRemainder_def Let_def split: if_splits)

lemma readRest_spec:
  assumes "0 \<le> nb" "0 \<le> bi" "bi < 8" "nb > 0 \<longrightarrow> bi = 0"
    and "readRest bs (r, nb, bi, by) = (r', bi', by')"
  shows "0 \<le> bi' \<and> bi' < 8 \<and> by \<le> by' \<and> 8 * by' + bi' = 8 * by + bi + nb"
proof (cases "nb > 0")
  case False
  with assms show ?thesis by (simp add: readRest_def)
next
  case True
  obtain r1 b1 n1 where w: "readWholeBytes bs r by nb = (r1, b1, n1)"
    by (cases "readWholeBytes bs r by nb") auto
  from readWholeBytes_spec [OF assms(1) w] have b1: "b1 = by + nb div 8" and n1: "n1 = nb mod 8"
    by simp_all
  from assms True have bi: "bi = 0" by simp
  from assms(1) have "0 \<le> nb mod 8" by simp
  with assms(5) True w n1 have "bi' = n1" "by' = b1"
    by (auto simp: readRest_def Let_def bi split: if_splits)
  then show ?thesis unfolding b1 n1 bi using assms(1) by presburger
qed

lemma readBits_step:
  assumes inv: "cursor_inv s" and rd: "readBits s n = Inr (r, s')"
  shows "cursor_inv s' \<and> bytes s' = bytes s \<and> byteOffset s \<le> byteOffset s' \<and>
         8 * byteOffset s' + bitOffset s' = 8 * byteOffset s + bitOffset s + n \<and> 1 \<le> n"
proof -
  from rd have n: "1 \<le> n" "n \<le> available s"
    by (auto simp: readBits_def split: if_splits)
  obtain r1 nb bi by' where rem: "readRemainder s n = (r1, nb, bi, by')"
    by (cases "readRemainder s n") auto
  obtain r2 bi2 by2 where rest: "readRest (bytes s) (r1, nb, bi, by') = (r2, bi2, by2)"
    by (cases "readRest (bytes s) (r1, nb, bi, by')") auto
  from inv have "0 < bitOffset s \<or> bitOffset s = 0" "bitOffset s < 8"
    by (auto simp: cursor_inv_def)
  from readRemainder_spec [OF this n(1) rem]
  have A: "0 \<le> nb" "0 \<le> bi" "bi < 8" "nb > 0 \<longrightarrow> bi = 0" "byteOffset s \<le> by'"
    "8 * by' + bi + nb = 8 * byteOffset s + bitOffset s + n" by simp_all
  from readRest_spec [OF A(1-4) rest]
  have B: "0 \<le> bi2" "bi2 < 8" "by' \<le> by2" "8 * by2 + bi2 = 8 * by' + bi + nb" by simp_all
  from rd n rem rest have s': "s' = s\<lparr>bitOffset := bi2, byteOffset := by2\<rparr>"
    by (simp add: readBits_def split: if_splits)
  from inv n A B show ?thesis
    unfolding s' by (simp add: cursor_inv_def available_def)
qed

lemma readAll_inv:
  "cursor_inv s \<Longrightarrow> readAll s ns = Inr s' \<Longrightarrow>
     cursor_inv s' \<and> bytes s' = bytes s \<and> byteOffset s \<le> byteOffset s'"
proof (induction ns arbitrary: s)
  case Nil
  then show ?case by simp
next
  case (Cons n ns)
  from Cons.prems(2) obtain r s1 where r: "readBits s n = Inr (r, s1)" and a: "readAll s1 ns = Inr s'"
    by (auto split: sum.splits)
  from readBits_step [OF Cons.prems(1) r] Cons.IH [OF _ a] show ?case by auto
qed

lemma newBitSource_inv: "cursor_inv (newBitSource bs)"
  by (simp add: cursor_inv_def newBitSource_def available_def)

text \<open>
  C4: over the buffer \<open>[0xB4, 0x3A]\<close>, \<open>readBits 4\<close> returns 11, the following \<open>readBits 8\<close>
  returns 67, \<open>available\<close> is then 4, and a subsequent \<open>readBits 5\<close> throws
  \<open>IllegalArgumentException\<close>.
\<close>

theorem bitsource_scenario:
  "readBits (newBitSource [0xB4, 0x3A]) 4
     = Inr (11, \<lparr>bytes = [0xB4, 0x3A], byteOffset = 0, bitOffset = 4\<rparr>) \<and>
   readBits \<lparr>bytes = [0xB4, 0x3A], byteOffset = 0, bitOffset = 4\<rparr> 8
     = Inr (67, \<lparr>bytes = [0xB4, 0x3A], byteOffset = 1, bitOffset = 4\<rparr>) \<and>
   available \<lparr>bytes = [0xB4, 0x3A], byteOffset = 1, bitOffset = 4\<rparr> = 4 \<and>
   readBits \<lparr>bytes = [0xB4, 0x3A], byteOffset = 1, bitOffset = 4\<rparr> 5
     = Inl IllegalArgumentException"
  by code_simp

text \<open>
  C5, as stated, asks that \<open>byteOffset\<close> strictly increases with every read. A read that
  stays inside the current byte leaves \<open>byteOffset\<close> as it was: after \<open>readBits 4\<close> on a
  fresh source it is still 0.
\<close>

theorem byteOffset_not_strict:
  "readBits (newBitSource [0xB4, 0x3A]) 4
     = Inr (11, \<lparr>bytes = [0xB4, 0x3A], byteOffset = 0, bitOffset = 4\<rparr>) \<and>
   \<not> byteOffset (newBitSource [0xB4, 0x3A])
       < byteOffset \<lparr>bytes = [0xB4, 0x3A], byteOffset = 0, bitOffset = 4\<rparr>"
  by code_simp

text \<open>
  C5, amended: after any sequence of successful \<open>readBits\<close> calls on a new \<open>BitSource\<close>,
  a further successful call leaves \<open>0 \<le> bitOffset < 8\<close> and
  \<open>available = 8 * (len - byteOffset) - bitOffset \<ge> 0\<close>; \<open>byteOffset\<close> never decreases, and
  the position \<open>8 * byteOffset + bitOffset\<close> strictly increases.
\<close>

theorem readBits_cursor_invariant:
  assumes "readAll (newBitSource bs) ns = Inr s" and "readBits s n = Inr (r, s')"
  shows "0 \<le> bitOffset s' \<and> bitOffset s' < 8 \<and>
         available s' = 8 * (int (length bs) - byteOffset s') - bitOffset s' \<and>
         available s' \<ge> 0 \<and>
         byteOffset s \<le> byteOffset s' \<and>
         8 * byteOffset s + bitOffset s < 8 * byteOffset s' + bitOffset s'"
proof -
  from readAll_inv [OF newBitSource_inv assms(1)] have s: "cursor_inv s" "bytes s = bs"
    by (simp_all add: newBitSource_def)
  from readBits_step [OF s(1) assms(2)]
  have "cursor_inv s'" "bytes s' = bs" "byteOffset s \<le> byteOffset s'"
    "8 * byteOffset s' + bitOffset s' = 8 * byteOffset s + bitOffset s + n" "1 \<le> n"
    using s(2) by simp_all
  then show ?thesis
    by (simp add: cursor_inv_def available_def)
qed

theorem readBits_cursor_invariant_witness:
  "readAll (newBitSource [0xB4, 0x3A]) [4]
     = Inr \<lparr>bytes = [0xB4, 0x3A], byteOffset = 0, bitOffset = 4\<rparr> \<and>
   readBits \<lparr>bytes = [0xB4, 0x3A], byteOffset = 0, bitOffset = 4\<rparr> 8
     = Inr (67, \<lparr>bytes = [0xB4, 0x3A], byteOffset = 1, bitOffset = 4\<rparr>) \<and>
   available \<lparr>bytes = [0xB4, 0x3A], byteOffset = 1, bitOffset = 4\<rparr> = 8 * (2 - 1) - 4 \<and>
   (0::int) < 1 \<and> 8 * (0::int) + 4 < 8 * 1 + 4"
proof -
  have a: "readAll (newBitSource [0xB4, 0x3A]) [4]
             = Inr \<lparr>bytes = [0xB4, 0x3A], byteOffset = 0, bitOffset = 4\<rparr>"
    by code_simp
  have b: "readBits \<lparr>bytes = [0xB4, 0x3A], byteOffset = 0, bitOffset = 4\<rparr> 8
             = Inr (67, \<lparr>bytes = [0xB4, 0x3A], byteOffset = 1, bitOffset = 4\<rparr>)"
    by code_simp
  from readBits_cursor_invariant [OF a b] a b show ?thesis by simp
qed

subsection \<open>PerspectiveTransform\<close>

text \<open>
  C9: when the computed \<open>dx3 = x0 - x1 + x2 - x3\<close> and \<open>dy3 = y0 - y1 + y2 - y3\<close> (each
  step rounded, as the source evaluates them) are both zero, \<open>squareToQuadrilateral\<close>
  returns the affine transform with \<open>a13 = 0\<close>, \<open>a23 = 0\<close>, \<open>a33 = 1\<close>, \<open>a11 = x1 - x0\<close>,
  \<open>a21 = x2 - x1\<close>, \<open>a31 = x0\<close>, \<open>a12 = y1 - y0\<close>, \<open>a22 = y2 - y1\<close> and \<open>a32 = y0\<close>, the
  differences being the rounded ones.
\<close>

theorem squareToQuadrilateral_affine:
  assumes "eq_n (sub_n (add_n (sub_n x0 x1) x2) x3) (Num 0)"
    and "eq_n (sub_n (add_n (sub_n y0 y1) y2) y3) (Num 0)"
  shows "squareToQuadrilateral x0 y0 x1 y1 x2 y2 x3 y3 =
           \<lparr>a11 = sub_n x1 x0, a21 = sub_n x2 x1, a31 = x0,
            a12 = sub_n y1 y0, a22 = sub_n y2 y1, a32 = y0,
            a13 = Num 0, a23 = Num 0, a33 = Num 1\<rparr>"
  using assms by (simp add: squareToQuadrilateral_def newPerspectiveTransform_def)

theorem squareToQuadrilateral_affine_witness:
  "eq_n (sub_n (add_n (sub_n (Num 2) (Num 5)) (Num 6)) (Num 3)) (Num 0) \<and>
   eq_n (sub_n (add_n (sub_n (Num 1) (Num 2)) (Num 4)) (Num 3)) (Num 0) \<and>
   squareToQuadrilateral (Num 2) (Num 1) (Num 5) (Num 2) (Num 6) (Num 4) (Num 3) (Num 3) =
     \<lparr>a11 = Num 3, a21 = Num 1, a31 = Num 2, a12 = Num 1, a22 = Num 2, a32 = Num 1,
      a13 = Num 0, a23 = Num 0, a33 = Num 1\<rparr>"
proof -
  have d: "eq_n (sub_n (add_n (sub_n (Num 2) (Num 5)) (Num 6)) (Num 3)) (Num 0)"
    "eq_n (sub_n (add_n (sub_n (Num 1) (Num 2)) (Num 4)) (Num 3)) (Num 0)"
    by (simp_all add: eq_n_def num_ops)
  have s: "sub_n (Num 5) (Num 2) = Num 3" "sub_n (Num 6) (Num 5) = Num 1"
    "sub_n (Num 2) (Num 1) = Num 1" "sub_n (Num 4) (Num 2) = Num 2"
    by (simp_all add: num_eval)
  from squareToQuadrilateral_affine [OF d] d show ?thesis by (simp only: s simp_thms)
qed

text \<open>
  The sums are the computed ones. For the rectangle with the corners (10.1, 20),
  (30.3, 20), (30.3, 40) and (10.1, 40) the exact \<open>dx3\<close> is 0, but the computed one is
  \<open>- (2 ^ - 49)\<close>, and \<open>squareToQuadrilateral\<close> takes its general branch.
\<close>

lemma rectangle_general_branch:
  "sub_n (add_n (sub_n (literal 10.1) (literal 30.3)) (literal 30.3)) (literal 10.1)
     = Num (- (1 / 2 ^ 49)) \<and>
   squareToQuadrilateral (literal 10.1) (Num 20) (literal 30.3) (Num 20)
     (literal 30.3) (Num 40) (literal 10.1) (Num 40) =
     \<lparr>a11 = Num (1421448632388813 / 70368744177664),
      a21 = Num (9007199254740991 / 10141204801825835211973625643008),
      a31 = Num (5685794529555251 / 562949953421312),
      a12 = Num 0,
      a22 = Num (5629499534213121 / 281474976710656),
      a32 = Num 20,
      a13 = NegZero,
      a23 = Num (7134415251279993 / 81129638414606681695789005144064),
      a33 = Num 1\<rparr>"
proof -
  have l: "literal (101 / 10) = Num (5685794529555251 / 562949953421312)"
    "literal (303 / 10) = Num (8528691794332877 / 281474976710656)"
    by (simp_all add: num_eval)
  show ?thesis
    by (simp add: l squareToQuadrilateral_def newPerspectiveTransform_def eq_n_def num_ops)
qed

subsection \<open>BitMatrix: single bits\<close>

lemma and31: "(x::int) AND 0x1f = x mod 32"
proof -
  have "x AND mask 5 = x mod 2 ^ 5"
    by (simp only: take_bit_eq_mask [symmetric] take_bit_eq_mod)
  then show ?thesis by (simp add: mask_eq_exp_minus_1)
qed

lemma wellFormed_rowSize:
  assumes "wellFormed m"
  shows "1 \<le> rowSize m" "width m \<le> 32 * rowSize m" "32 * (rowSize m - 1) < width m"
proof -
  define q where "q = (width m + 31) div 32"
  define r where "r = (width m + 31) mod 32"
  from assms have w: "1 \<le> width m" and rs: "rowSize m = q"
    by (simp_all add: wellFormed_def q_def)
  have d: "width m + 31 = 32 * q + r" by (simp add: q_def r_def)
  have m0: "0 \<le> r" and m1: "r < 32" by (simp_all add: r_def)
  from w d m0 m1 show "1 \<le> rowSize m" unfolding rs by linarith
  from w d m0 m1 show "width m \<le> 32 * rowSize m" unfolding rs by linarith
  from w d m0 m1 show "32 * (rowSize m - 1) < width m" unfolding rs by (simp add: algebra_simps)
qed

lemma get_outside:
  assumes "y * rowSize m + x div 32 < 0 \<or> int (length (bits m)) \<le> y * rowSize m + x div 32"
  shows "get m x y = False"
  using assms by (auto simp: get_def wordAt_def toInt32_def ushr_def Let_def)

text \<open>
  C10: \<open>get\<close> returns a truth value on every input, and it returns \<open>False\<close> whenever the
  word index \<open>y * rowSize + x div 32\<close> lies outside the storage; that is the case for every
  \<open>y \<ge> height\<close> (with \<open>x \<ge> 0\<close>) of a well-formed matrix.
\<close>

theorem get_outside_storage:
  "(y * rowSize m + x div 32 < 0 \<or> int (length (bits m)) \<le> y * rowSize m + x div 32
      \<longrightarrow> get m x y = False) \<and>
   (wellFormed m \<and> height m \<le> y \<and> 0 \<le> x \<longrightarrow> get m x y = False)"
proof (intro conjI impI)
  assume "y * rowSize m + x div 32 < 0 \<or> int (length (bits m)) \<le> y * rowSize m + x div 32"
  then show "get m x y = False" by (rule get_outside)
next
  assume a: "wellFormed m \<and> height m \<le> y \<and> 0 \<le> x"
  then have wf: "wellFormed m" and y: "height m \<le> y" and x: "0 \<le> x" by simp_all
  from wellFormed_rowSize(1) [OF wf] have "0 \<le> rowSize m" by simp
  with y have "rowSize m * height m \<le> rowSize m * y" by (rule mult_left_mono)
  moreover from x have "0 \<le> x div 32" by simp
  ultimately have "int (length (bits m)) \<le> y * rowSize m + x div 32"
    using wf by (simp add: wellFormed_def mult.commute)
  then show "get m x y = False" by (rule get_outside [OF disjI2])
qed

theorem get_outside_storage_witness:
  "int (length (bits \<lparr>width = 40, height = 2, rowSize = 2, bits = [5, 0, 7, 1]\<rparr>))
     \<le> 2 * rowSize \<lparr>width = 40, height = 2, rowSize = 2, bits = [5, 0, 7, 1]\<rparr> + 3 div 32 \<and>
   wellFormed \<lparr>width = 40, height = 2, rowSize = 2, bits = [5, 0, 7, 1]\<rparr> \<and>
   height \<lparr>width = 40, height = 2, rowSize = 2, bits = [5, 0, 7, 1]\<rparr> \<le> 2 \<and> (0::int) \<le> 3 \<and>
   get \<lparr>width = 40, height = 2, rowSize = 2, bits = [5, 0, 7, 1]\<rparr> 3 2 = False"
  using get_outside_storage [of 2 "\<lparr>width = 40, height = 2, rowSize = 2, bits = [5, 0, 7, 1]\<rparr>" 3]
  by (simp add: wellFormed_def)

subsection \<open>Sampling\<close>

text \<open>
  C1, as stated, asks for an \<open>IllegalArgumentException\<close> when a dimension is not positive.
  The guard of \<open>sampleGridWithTransform\<close> throws \<open>NotFoundException\<close>.
\<close>

theorem nonpositive_dimension_not_illegal_argument:
  "sampleGridWithTransform \<lparr>width = 10, height = 10, rowSize = 1, bits = [0,0,0,0,16,0,0,0,0,0]\<rparr> 0 5
     \<lparr>a11 = Num 1, a21 = Num 0, a31 = Num 0, a12 = Num 0, a22 = Num 1, a32 = Num 0,
      a13 = Num 0, a23 = Num 0, a33 = Num 1\<rparr>
   \<noteq> Inl IllegalArgumentException"
  by (simp add: sampleGridWithTransform_def)

text \<open>
  C1, amended: for every image and every transform, \<open>sampleGridWithTransform\<close>, and hence
  \<open>sampleGrid\<close>, called with \<open>dimensionX \<le> 0\<close> or \<open>dimensionY \<le> 0\<close> throws
  \<open>NotFoundException\<close>.
\<close>

theorem nonpositive_dimension_not_found:
  assumes "dimensionX \<le> 0 \<or> dimensionY \<le> 0"
  shows "sampleGridWithTransform img dimensionX dimensionY transform
           = Inl NotFoundException \<and>
         sampleGrid img dimensionX dimensionY p1ToX p1ToY p2ToX p2ToY p3ToX p3ToY p4ToX p4ToY
           p1FromX p1FromY p2FromX p2FromY p3FromX p3FromY p4FromX p4FromY
           = Inl NotFoundException"
  using assms by (auto simp: sampleGridWithTransform_def sampleGrid_def Let_def)

theorem nonpositive_dimension_not_found_witness:
  "((0::int) \<le> 0 \<or> (5::int) \<le> 0) \<and>
   sampleGridWithTransform \<lparr>width = 10, height = 10, rowSize = 1, bits = [0,0,0,0,16,0,0,0,0,0]\<rparr> 0 5
     \<lparr>a11 = Num 1, a21 = Num 0, a31 = Num 0, a12 = Num 0, a22 = Num 1, a32 = Num 0,
      a13 = Num 0, a23 = Num 0, a33 = Num 1\<rparr>
     = Inl NotFoundException \<and>
   sampleGrid \<lparr>width = 10, height = 10, rowSize = 1, bits = [0,0,0,0,16,0,0,0,0,0]\<rparr> 0 5
     (Num 0) (Num 0) (Num 2) (Num 0) (Num 2) (Num 2) (Num 0) (Num 2)
     (Num 0) (Num 0) (Num 4) (Num 0) (Num 4) (Num 4) (Num 0) (Num 4) = Inl NotFoundException"
  using nonpositive_dimension_not_found
    [of 0 5 "\<lparr>width = 10, height = 10, rowSize = 1, bits = [0,0,0,0,16,0,0,0,0,0]\<rparr>"
        "\<lparr>a11 = Num 1, a21 = Num 0, a31 = Num 0, a12 = Num 0, a22 = Num 1, a32 = Num 0,
          a13 = Num 0, a23 = Num 0, a33 = Num 1\<rparr>"
        "Num 0" "Num 0" "Num 2" "Num 0" "Num 2" "Num 2" "Num 0" "Num 2"
        "Num 0" "Num 0" "Num 4" "Num 0" "Num 4" "Num 4" "Num 0" "Num 4"]
  by simp

text \<open>
  C2 asks that a lookup outside the image during the per-point pass makes the call throw
  \<open>NotFoundException\<close>. On the 10 x 10 image whose only set bit is (4, 4), a 3 x 1 grid
  and the transform below, the floor coordinates of the three sample points are (3, 1),
  (100, 1) and (0, 1). The end points are inside the image, so \<open>checkAndNudgePoints\<close>
  accepts the row; the lookup of (100, 1) reads bit 4 of word 4, which is the pixel
  (4, 4), and the call returns a grid with that bit set.
\<close>

theorem out_of_bounds_lookup_returns_grid:
  "map floor_n
     (transformPoints
        \<lparr>a11 = Num 100, a21 = Num 0, a31 = Num (- 250), a12 = Num 64, a22 = Num 2,
         a32 = Num (- 98), a13 = Num 64, a23 = Num 0, a33 = Num (- 97)\<rparr>
        (fillPoints (replicate 6 (Num 0)) (Num 0.5) 0))
     = [Num 3, Num 1, Num 100, Num 1, Num 0, Num 1] \<and>
   checkAndNudgePoints \<lparr>width = 10, height = 10, rowSize = 1, bits = [0,0,0,0,16,0,0,0,0,0]\<rparr>
     (transformPoints
        \<lparr>a11 = Num 100, a21 = Num 0, a31 = Num (- 250), a12 = Num 64, a22 = Num 2,
         a32 = Num (- 98), a13 = Num 64, a23 = Num 0, a33 = Num (- 97)\<rparr>
        (fillPoints (replicate 6 (Num 0)) (Num 0.5) 0))
     = Inr (transformPoints
        \<lparr>a11 = Num 100, a21 = Num 0, a31 = Num (- 250), a12 = Num 64, a22 = Num 2,
         a32 = Num (- 98), a13 = Num 64, a23 = Num 0, a33 = Num (- 97)\<rparr>
        (fillPoints (replicate 6 (Num 0)) (Num 0.5) 0)) \<and>
   get \<lparr>width = 10, height = 10, rowSize = 1, bits = [0,0,0,0,16,0,0,0,0,0]\<rparr> 100 1 = True \<and>
   sampleGridWithTransform \<lparr>width = 10, height = 10, rowSize = 1, bits = [0,0,0,0,16,0,0,0,0,0]\<rparr> 3 1
     \<lparr>a11 = Num 100, a21 = Num 0, a31 = Num (- 250), a12 = Num 64, a22 = Num 2,
      a32 = Num (- 98), a13 = Num 64, a23 = Num 0, a33 = Num (- 97)\<rparr>
     = Inr \<lparr>width = 3, height = 1, rowSize = 1, bits = [2]\<rparr>"
proof -
  let ?img = "\<lparr>width = 10, height = 10, rowSize = 1, bits = [0,0,0,0,16,0,0,0,0,0]\<rparr>"
  let ?t = "\<lparr>a11 = Num 100, a21 = Num 0, a31 = Num (- 250), a12 = Num 64, a22 = Num 2,
         a32 = Num (- 98), a13 = Num 64, a23 = Num 0, a33 = Num (- 97)\<rparr>"
  let ?ps = "[Num (12905551 / 4194304), Num 1, Num 100, Num 1, Num 0, Num 1]"
  have g: "get ?img 3 1 = False" "get ?img 100 1 = True" "get ?img 0 1 = False"
    by code_simp+
  have s: "set_m \<lparr>width = 3, height = 1, rowSize = 1, bits = [0]\<rparr> 1 0
             = \<lparr>width = 3, height = 1, rowSize = 1, bits = [2]\<rparr>"
    by code_simp
  have f: "fillPoints (replicate 6 (Num 0)) (Num (1 / 2)) 0
             = [Num (1 / 2), Num (1 / 2), Num (3 / 2), Num (1 / 2), Num (5 / 2), Num (1 / 2)]"
    by (simp add: fillPoints.simps num_eval buf_eval)
  have t: "transformPoints ?t [Num (1 / 2), Num (1 / 2), Num (3 / 2), Num (1 / 2), Num (5 / 2), Num (1 / 2)] = ?ps"
    by (simp add: num_eval)
  have c: "checkAndNudgePoints ?img ?ps = Inr ?ps"
    by (simp add: sampler_eval buf_eval num_eval)
  have p: "samplePoints ?img ?ps \<lparr>width = 3, height = 1, rowSize = 1, bits = [0]\<rparr> 0 0
             = \<lparr>width = 3, height = 1, rowSize = 1, bits = [2]\<rparr>"
    by (simp add: samplePoints.simps getAt_def elementAt_def g s)
  have r: "sampleGridWithTransform ?img 3 1 ?t = Inr \<lparr>width = 3, height = 1, rowSize = 1, bits = [2]\<rparr>"
  proof -
    have iv: "add_n (ofInt 0) (Num (1 / 2)) = Num (1 / 2)" by (simp add: num_eval)
    show ?thesis
      by (simp add: sampleGridWithTransform_def newBitMatrix_def sampleRows.simps iv f t c p
            del: transformPoints.simps)
  qed
  show ?thesis by (simp add: f t c g(2) r del: transformPoints.simps)
qed

subsection \<open>checkAndNudgePoints\<close>

lemma Num_ofInt: "Num 0 = ofInt 0" "Num 1 = ofInt 1" "Num (- 1) = ofInt (- 1)"
  by (simp_all add: ofInt_def)

lemma floor_ofInt: "floor_n (ofInt a) = ofInt a"
  by (simp add: ofInt_def)

lemma compare_ofInt:
  "eq_n (ofInt a) (ofInt b) \<longleftrightarrow> a = b"
  "lt_n (ofInt a) (ofInt b) \<longleftrightarrow> a < b"
  "gt_n (ofInt a) (ofInt b) \<longleftrightarrow> b < a"
  by (simp_all add: eq_n_def lt_n_def gt_n_def ofInt_def)

lemma pointAt_update:
  assumes "2 * k + 1 < length ps"
  shows "pointAt (ps[2 * k := a, 2 * k + 1 := b]) j = (if j = k then (a, b) else pointAt ps j)"
  using assms by (auto simp: pointAt_def nth_list_update)

lemma nudgePoint_eq:
  assumes b: "1 \<le> w" "w \<le> 2 ^ 24 + 1" "1 \<le> h" "h \<le> 2 ^ 24 + 1" and len: "2 * k + 1 < length ps"
  shows "nudgePoint w h ps (2 * k) =
           (if farOutside w h (pointAt ps k) then Inl NotFoundException
            else Inr (ps[2 * k := fst (clamped w h (pointAt ps k)),
                         2 * k + 1 := snd (clamped w h (pointAt ps k))],
                      needsNudge w h (pointAt ps k)))"
  using len store_edge [OF b(1,2)] store_edge [OF b(3,4)]
  by (auto simp: nudgePoint_def farOutside_def needsNudge_def clamped_def clampCoord_def
      pointAt_def Let_def elementAt_def storeElement_def roundFloat32_zero
      nth_list_update intro!: nth_equalityI)

lemma clampCoord_idem: "1 \<le> n \<Longrightarrow> clampCoord n (clampCoord n v) = clampCoord n v"
  by (auto simp: clampCoord_def Num_ofInt floor_ofInt compare_ofInt)

lemma clamped_idem: "1 \<le> w \<Longrightarrow> 1 \<le> h \<Longrightarrow> clamped w h (clamped w h p) = clamped w h p"
  by (simp add: clamped_def clampCoord_idem)

lemma clamped_not_needs: "1 \<le> w \<Longrightarrow> 1 \<le> h \<Longrightarrow> \<not> needsNudge w h (clamped w h p)"
  by (auto simp: clamped_def clampCoord_def needsNudge_def Num_ofInt floor_ofInt compare_ofInt)

lemma clamped_not_far:
  "1 \<le> w \<Longrightarrow> 1 \<le> h \<Longrightarrow> \<not> farOutside w h p \<Longrightarrow> \<not> farOutside w h (clamped w h p)"
  by (auto simp: clamped_def clampCoord_def farOutside_def Num_ofInt floor_ofInt compare_ofInt)

lemma clamped_id: "\<not> needsNudge w h p \<Longrightarrow> clamped w h p = p"
  by (auto simp: clamped_def clampCoord_def needsNudge_def Num_ofInt floor_ofInt compare_ofInt)

lemma nudgeFromStart_stop: "nudgeFromStart w h ps off False = Inr ps"
  by (subst nudgeFromStart.simps) simp

lemma nudgeFromStart_end: "length ps \<le> off \<Longrightarrow> nudgeFromStart w h ps off b = Inr ps"
  by (subst nudgeFromStart.simps) simp

lemma nudgeFromStart_far:
  assumes b: "1 \<le> w" "w \<le> 2 ^ 24 + 1" "1 \<le> h" "h \<le> 2 ^ 24 + 1"
    and a: "2 * k + 1 < length ps" "farOutside w h (pointAt ps k)"
  shows "nudgeFromStart w h ps (2 * k) True = Inl NotFoundException"
  using a by (subst nudgeFromStart.simps) (simp add: nudgePoint_eq [OF b])

lemma nudgeFromStart_ok:
  assumes b: "1 \<le> w" "w \<le> 2 ^ 24 + 1" "1 \<le> h" "h \<le> 2 ^ 24 + 1"
    and a: "2 * k + 1 < length ps" "\<not> farOutside w h (pointAt ps k)"
  shows "nudgeFromStart w h ps (2 * k) True =
           nudgeFromStart w h (ps[2 * k := fst (clamped w h (pointAt ps k)),
                                2 * k + 1 := snd (clamped w h (pointAt ps k))])
             (2 * (k + 1)) (needsNudge w h (pointAt ps k))"
  using a by (subst nudgeFromStart.simps) (simp add: nudgePoint_eq [OF b])

lemma pointAt_update_id:
  assumes "2 * k + 1 < length ps"
  shows "ps[2 * k := fst (pointAt ps k), 2 * k + 1 := snd (pointAt ps k)] = ps"
  using assms by (auto simp: pointAt_def nth_list_update intro!: nth_equalityI)

lemma fwdReach_self: "fwdReach w h ps k k"
  by (auto simp: fwdReach_def)

lemma fwdReach_stop:
  assumes "\<not> needsNudge w h (pointAt ps k)"
  shows "fwdReach w h ps k m \<longleftrightarrow> m = k"
  using assms by (auto simp: fwdReach_def)

lemma fwdReach_step:
  assumes "needsNudge w h (pointAt ps k)" and "\<And>i. k < i \<Longrightarrow> pointAt ps1 i = pointAt ps i"
  shows "fwdReach w h ps k m \<longleftrightarrow> m = k \<or> fwdReach w h ps1 (k + 1) m"
proof
  assume a: "fwdReach w h ps k m"
  show "m = k \<or> fwdReach w h ps1 (k + 1) m"
  proof (cases "m = k")
    case False
    with a have "k + 1 \<le> m" by (simp add: fwdReach_def)
    moreover have "needsNudge w h (pointAt ps1 i)" if "k + 1 \<le> i" "i < m" for i
      using a that assms(2) [of i] by (simp add: fwdReach_def)
    ultimately show ?thesis by (simp add: fwdReach_def)
  qed simp
next
  assume a: "m = k \<or> fwdReach w h ps1 (k + 1) m"
  show "fwdReach w h ps k m"
  proof (cases "m = k")
    case True
    then show ?thesis by (simp add: fwdReach_self)
  next
    case False
    with a have b: "k + 1 \<le> m" "\<And>i. k + 1 \<le> i \<Longrightarrow> i < m \<Longrightarrow> needsNudge w h (pointAt ps1 i)"
      by (simp_all add: fwdReach_def)
    have "needsNudge w h (pointAt ps i)" if "k \<le> i" "i < m" for i
    proof (cases "i = k")
      case True
      with assms(1) show ?thesis by simp
    next
      case False
      with that have "k + 1 \<le> i" by simp
      from b(2) [OF this that(2)] assms(2) [of i] this show ?thesis by simp
    qed
    with b(1) show ?thesis by (simp add: fwdReach_def)
  qed
qed

lemma nudgeFromStart_spec:
  assumes b: "1 \<le> w" "w \<le> 2 ^ 24 + 1" "1 \<le> h" "h \<le> 2 ^ 24 + 1"
    and l: "length ps = 2 * n" "k \<le> n"
  shows "(if \<exists>m<n. fwdReach w h ps k m \<and> farOutside w h (pointAt ps m)
          then nudgeFromStart w h ps (2 * k) True = Inl NotFoundException
          else \<exists>ps'. nudgeFromStart w h ps (2 * k) True = Inr ps' \<and> length ps' = length ps \<and>
                 (\<forall>j<n. pointAt ps' j =
                    (if fwdReach w h ps k j then clamped w h (pointAt ps j) else pointAt ps j)))"
  using l
proof (induction "n - k" arbitrary: k ps)
  case 0
  then have k: "k = n" by simp
  have "nudgeFromStart w h ps (2 * k) True = Inr ps"
    using 0 k by (simp add: nudgeFromStart_end)
  moreover have "\<not> fwdReach w h ps k m" if "m < n" for m
    using that k by (simp add: fwdReach_def)
  ultimately show ?case by auto
next
  case (Suc d)
  then have k: "k < n" and len: "2 * k + 1 < length ps" by simp_all
  let ?p = "pointAt ps k"
  show ?case
  proof (cases "farOutside w h ?p")
    case True
    from nudgeFromStart_far [OF b len True] fwdReach_self [of w h ps k] True k
    show ?thesis by auto
  next
    case notfar: False
    show ?thesis
    proof (cases "needsNudge w h ?p")
      case False
      have "nudgeFromStart w h ps (2 * k) True = Inr ps"
        unfolding nudgeFromStart_ok [OF b len notfar] using False pointAt_update_id [OF len]
        by (simp add: nudgeFromStart_stop clamped_id)
      moreover have "\<not> (\<exists>m<n. fwdReach w h ps k m \<and> farOutside w h (pointAt ps m))"
        using notfar by (simp add: fwdReach_stop [OF False])
      moreover have "pointAt ps j =
          (if fwdReach w h ps k j then clamped w h (pointAt ps j) else pointAt ps j)" for j
        using False by (simp add: fwdReach_stop [OF False] clamped_id)
      ultimately show ?thesis by simp
    next
      case True
      define ps1 where "ps1 = ps[2 * k := fst (clamped w h ?p), 2 * k + 1 := snd (clamped w h ?p)]"
      have l1: "length ps1 = 2 * n" using Suc.prems by (simp add: ps1_def)
      have p1: "pointAt ps1 j = (if j = k then clamped w h ?p else pointAt ps j)" for j
        unfolding ps1_def using pointAt_update [OF len] by simp
      have step: "nudgeFromStart w h ps (2 * k) True = nudgeFromStart w h ps1 (2 * (k + 1)) True"
        unfolding nudgeFromStart_ok [OF b len notfar] ps1_def using True by simp
      have r: "fwdReach w h ps k m \<longleftrightarrow> m = k \<or> fwdReach w h ps1 (k + 1) m" for m
        by (rule fwdReach_step [OF True]) (simp add: p1)
      have nk: "\<not> fwdReach w h ps1 (k + 1) k" by (simp add: fwdReach_def)
      have d: "d = n - (k + 1)" using Suc.hyps(2) by simp
      have k1: "k + 1 \<le> n" using k by simp
      note IH = Suc.hyps(1) [OF d l1 k1]
      have e: "(\<exists>m<n. fwdReach w h ps k m \<and> farOutside w h (pointAt ps m)) \<longleftrightarrow>
               (\<exists>m<n. fwdReach w h ps1 (k + 1) m \<and> farOutside w h (pointAt ps1 m))"
      proof
        assume "\<exists>m<n. fwdReach w h ps k m \<and> farOutside w h (pointAt ps m)"
        then obtain m where m: "m < n" "fwdReach w h ps k m" "farOutside w h (pointAt ps m)" by blast
        with notfar have "m \<noteq> k" by auto
        with m r [of m] p1 [of m] show "\<exists>m<n. fwdReach w h ps1 (k + 1) m \<and> farOutside w h (pointAt ps1 m)"
          by auto
      next
        assume "\<exists>m<n. fwdReach w h ps1 (k + 1) m \<and> farOutside w h (pointAt ps1 m)"
        then obtain m where m: "m < n" "fwdReach w h ps1 (k + 1) m" "farOutside w h (pointAt ps1 m)" by blast
        with nk have "m \<noteq> k" by auto
        with m r [of m] p1 [of m] show "\<exists>m<n. fwdReach w h ps k m \<and> farOutside w h (pointAt ps m)"
          by auto
      qed
      show ?thesis
      proof (cases "\<exists>m<n. fwdReach w h ps k m \<and> farOutside w h (pointAt ps m)")
        case True
        with e have "\<exists>m<n. fwdReach w h ps1 (k + 1) m \<and> farOutside w h (pointAt ps1 m)"
          by blast
        with IH have "nudgeFromStart w h ps1 (2 * (k + 1)) True = Inl NotFoundException"
          by (simp only: if_P)
        with True step show ?thesis by (simp only: if_P)
      next
        case False
        with e have ne: "\<not> (\<exists>m<n. fwdReach w h ps1 (k + 1) m \<and> farOutside w h (pointAt ps1 m))"
          by blast
        from IH have "\<exists>ps'. nudgeFromStart w h ps1 (2 * (k + 1)) True = Inr ps' \<and>
                 length ps' = length ps1 \<and>
                 (\<forall>j<n. pointAt ps' j =
                    (if fwdReach w h ps1 (k + 1) j then clamped w h (pointAt ps1 j) else pointAt ps1 j))"
          by (simp only: if_not_P [OF ne])
        then obtain ps' where ps': "nudgeFromStart w h ps1 (2 * (k + 1)) True = Inr ps'"
          "length ps' = length ps1"
          "\<And>j. j < n \<Longrightarrow> pointAt ps' j =
                    (if fwdReach w h ps1 (k + 1) j then clamped w h (pointAt ps1 j) else pointAt ps1 j)"
          by blast
        have "pointAt ps' j = (if fwdReach w h ps k j then clamped w h (pointAt ps j) else pointAt ps j)"
          if "j < n" for j
        proof (cases "j = k")
          case True
          with ps'(3) [OF that] nk show ?thesis by (simp add: p1 fwdReach_self)
        next
          case False
          with ps'(3) [OF that] show ?thesis by (simp add: p1 r [of j])
        qed
        with ps'(1,2) step l1 Suc.prems(1) False show ?thesis by simp
      qed
    qed
  qed
qed

lemma nudgeFromEnd_stop: "nudgeFromEnd w h ps off False = Inr ps"
  by (subst nudgeFromEnd.simps) simp

lemma nudgeFromEnd_end: "off < 0 \<Longrightarrow> nudgeFromEnd w h ps off b = Inr ps"
  by (subst nudgeFromEnd.simps) simp

lemma nudgeFromEnd_far:
  assumes b: "1 \<le> w" "w \<le> 2 ^ 24 + 1" "1 \<le> h" "h \<le> 2 ^ 24 + 1"
    and a: "2 * k + 1 < length ps" "farOutside w h (pointAt ps k)"
  shows "nudgeFromEnd w h ps (2 * int k) True = Inl NotFoundException"
proof -
  have n: "nat (2 * int k) = 2 * k" by simp
  show ?thesis using a by (subst nudgeFromEnd.simps) (simp add: n nudgePoint_eq [OF b])
qed

lemma nudgeFromEnd_ok:
  assumes b: "1 \<le> w" "w \<le> 2 ^ 24 + 1" "1 \<le> h" "h \<le> 2 ^ 24 + 1"
    and a: "2 * k + 1 < length ps" "\<not> farOutside w h (pointAt ps k)"
  shows "nudgeFromEnd w h ps (2 * int k) True =
           nudgeFromEnd w h (ps[2 * k := fst (clamped w h (pointAt ps k)),
                              2 * k + 1 := snd (clamped w h (pointAt ps k))])
             (2 * int k - 2) (needsNudge w h (pointAt ps k))"
proof -
  have n: "nat (2 * int k) = 2 * k" by simp
  show ?thesis using a by (subst nudgeFromEnd.simps) (simp add: n nudgePoint_eq [OF b])
qed

lemma bwdReach_self: "bwdReach w h ps (Suc k) k"
  by (auto simp: bwdReach_def)

lemma bwdReach_stop:
  assumes "\<not> needsNudge w h (pointAt ps k)"
  shows "bwdReach w h ps (Suc k) m \<longleftrightarrow> m = k"
  using assms by (auto simp: bwdReach_def less_Suc_eq)

lemma bwdReach_step:
  assumes "needsNudge w h (pointAt ps k)" and "\<And>i. i < k \<Longrightarrow> pointAt ps1 i = pointAt ps i"
  shows "bwdReach w h ps (Suc k) m \<longleftrightarrow> m = k \<or> bwdReach w h ps1 k m"
proof
  assume a: "bwdReach w h ps (Suc k) m"
  show "m = k \<or> bwdReach w h ps1 k m"
  proof (cases "m = k")
    case False
    with a have "m < k" by (simp add: bwdReach_def)
    moreover have "needsNudge w h (pointAt ps1 i)" if "m < i" "i < k" for i
      using a that assms(2) [of i] by (simp add: bwdReach_def)
    ultimately show ?thesis by (simp add: bwdReach_def)
  qed simp
next
  assume a: "m = k \<or> bwdReach w h ps1 k m"
  show "bwdReach w h ps (Suc k) m"
  proof (cases "m = k")
    case True
    with bwdReach_self [of w h ps k] show ?thesis by simp
  next
    case False
    with a have b: "m < k" "\<And>i. m < i \<Longrightarrow> i < k \<Longrightarrow> needsNudge w h (pointAt ps1 i)"
      by (simp_all add: bwdReach_def)
    have "needsNudge w h (pointAt ps i)" if "m < i" "i < Suc k" for i
    proof (cases "i = k")
      case True
      with assms(1) show ?thesis by simp
    next
      case False
      with that have "i < k" by simp
      from b(2) [OF that(1) this] assms(2) [of i] this show ?thesis by simp
    qed
    with b(1) show ?thesis by (simp add: bwdReach_def)
  qed
qed

lemma nudgeFromEnd_spec:
  assumes b: "1 \<le> w" "w \<le> 2 ^ 24 + 1" "1 \<le> h" "h \<le> 2 ^ 24 + 1"
    and l: "length ps = 2 * n" "c \<le> n"
  shows "(if \<exists>m<n. bwdReach w h ps c m \<and> farOutside w h (pointAt ps m)
          then nudgeFromEnd w h ps (2 * int c - 2) True = Inl NotFoundException
          else \<exists>ps'. nudgeFromEnd w h ps (2 * int c - 2) True = Inr ps' \<and> length ps' = length ps \<and>
                 (\<forall>j<n. pointAt ps' j =
                    (if bwdReach w h ps c j then clamped w h (pointAt ps j) else pointAt ps j)))"
  using l
proof (induction c arbitrary: ps)
  case 0
  have "nudgeFromEnd w h ps (2 * int 0 - 2) True = Inr ps"
    by (simp add: nudgeFromEnd_end)
  moreover have "\<not> bwdReach w h ps 0 m" for m
    by (simp add: bwdReach_def)
  ultimately show ?case by auto
next
  case (Suc k)
  then have k: "k < n" and len: "2 * k + 1 < length ps" by simp_all
  have off: "2 * int (Suc k) - 2 = 2 * int k" by simp
  have sk: "Suc k = k + 1" by simp
  let ?p = "pointAt ps k"
  have main: "(if \<exists>m<n. bwdReach w h ps (Suc k) m \<and> farOutside w h (pointAt ps m)
          then nudgeFromEnd w h ps (2 * int k) True = Inl NotFoundException
          else \<exists>ps'. nudgeFromEnd w h ps (2 * int k) True = Inr ps' \<and> length ps' = length ps \<and>
                 (\<forall>j<n. pointAt ps' j =
                    (if bwdReach w h ps (Suc k) j then clamped w h (pointAt ps j) else pointAt ps j)))"
  proof (cases "farOutside w h ?p")
    case True
    from nudgeFromEnd_far [OF b len True] bwdReach_self [of w h ps k] True k
    show ?thesis
      by auto
  next
    case notfar: False
    show ?thesis
    proof (cases "needsNudge w h ?p")
      case False
      have "nudgeFromEnd w h ps (2 * int k) True = Inr ps"
        unfolding nudgeFromEnd_ok [OF b len notfar] using False pointAt_update_id [OF len]
        by (simp add: nudgeFromEnd_stop clamped_id)
      moreover have "\<not> (\<exists>m<n. bwdReach w h ps (Suc k) m \<and> farOutside w h (pointAt ps m))"
        using notfar by (simp add: bwdReach_stop [OF False])
      moreover have "pointAt ps j =
          (if bwdReach w h ps (Suc k) j then clamped w h (pointAt ps j) else pointAt ps j)" for j
        using False by (simp add: bwdReach_stop [OF False] clamped_id)
      ultimately show ?thesis by simp
    next
      case True
      define ps1 where "ps1 = ps[2 * k := fst (clamped w h ?p), 2 * k + 1 := snd (clamped w h ?p)]"
      have l1: "length ps1 = 2 * n" using Suc.prems by (simp add: ps1_def)
      have p1: "pointAt ps1 j = (if j = k then clamped w h ?p else pointAt ps j)" for j
        unfolding ps1_def using pointAt_update [OF len] by simp
      have step: "nudgeFromEnd w h ps (2 * int k) True = nudgeFromEnd w h ps1 (2 * int k - 2) True"
        unfolding nudgeFromEnd_ok [OF b len notfar] ps1_def using True by simp
      have r: "bwdReach w h ps (Suc k) m \<longleftrightarrow> m = k \<or> bwdReach w h ps1 k m" for m
        by (rule bwdReach_step [OF True]) (simp add: p1)
      have nk: "\<not> bwdReach w h ps1 k k" by (simp add: bwdReach_def)
      have k1: "k \<le> n" using k by simp
      note IH = Suc.IH [OF l1 k1]
      have e: "(\<exists>m<n. bwdReach w h ps (Suc k) m \<and> farOutside w h (pointAt ps m)) \<longleftrightarrow>
               (\<exists>m<n. bwdReach w h ps1 k m \<and> farOutside w h (pointAt ps1 m))"
      proof
        assume "\<exists>m<n. bwdReach w h ps (Suc k) m \<and> farOutside w h (pointAt ps m)"
        then obtain m where m: "m < n" "bwdReach w h ps (Suc k) m" "farOutside w h (pointAt ps m)" by blast
        with notfar have "m \<noteq> k" by auto
        with m r [of m] p1 [of m] show "\<exists>m<n. bwdReach w h ps1 k m \<and> farOutside w h (pointAt ps1 m)"
          by auto
      next
        assume "\<exists>m<n. bwdReach w h ps1 k m \<and> farOutside w h (pointAt ps1 m)"
        then obtain m where m: "m < n" "bwdReach w h ps1 k m" "farOutside w h (pointAt ps1 m)" by blast
        with nk have "m \<noteq> k" by auto
        with m r [of m] p1 [of m] show "\<exists>m<n. bwdReach w h ps (Suc k) m \<and> farOutside w h (pointAt ps m)"
          by auto
      qed
      show ?thesis
      proof (cases "\<exists>m<n. bwdReach w h ps (Suc k) m \<and> farOutside w h (pointAt ps m)")
        case True
        with e have "\<exists>m<n. bwdReach w h ps1 k m \<and> farOutside w h (pointAt ps1 m)"
          by blast
        with IH have "nudgeFromEnd w h ps1 (2 * int k - 2) True = Inl NotFoundException"
          by (simp only: if_P)
        with True step show ?thesis by (simp only: if_P)
      next
        case False
        with e have ne: "\<not> (\<exists>m<n. bwdReach w h ps1 k m \<and> farOutside w h (pointAt ps1 m))"
          by blast
        from IH have "\<exists>ps'. nudgeFromEnd w h ps1 (2 * int k - 2) True = Inr ps' \<and>
                 length ps' = length ps1 \<and>
                 (\<forall>j<n. pointAt ps' j =
                    (if bwdReach w h ps1 k j then clamped w h (pointAt ps1 j) else pointAt ps1 j))"
          by (simp only: if_not_P [OF ne])
        then obtain ps' where ps': "nudgeFromEnd w h ps1 (2 * int k - 2) True = Inr ps'"
          "length ps' = length ps1"
          "\<And>j. j < n \<Longrightarrow> pointAt ps' j =
                    (if bwdReach w h ps1 k j then clamped w h (pointAt ps1 j) else pointAt ps1 j)"
          by blast
        have "pointAt ps' j = (if bwdReach w h ps (Suc k) j then clamped w h (pointAt ps j) else pointAt ps j)"
          if "j < n" for j
        proof (cases "j = k")
          case True
          with ps'(3) [OF that] nk bwdReach_self [of w h ps k] show ?thesis by (simp add: p1)
        next
          case False
          with ps'(3) [OF that] show ?thesis by (simp add: p1 r [of j])
        qed
        with ps'(1,2) step l1 Suc.prems(1) False show ?thesis by simp
      qed
    qed
  qed
  then show ?case by (simp only: off)
qed

lemma reached_iff:
  "reached w h ps k \<longleftrightarrow> fwdReach w h ps 0 k \<or> bwdReach w h ps (length ps div 2) k \<or>
     (length ps div 2 \<le> k \<and> (\<forall>i. k < i \<and> i < length ps div 2 \<longrightarrow> needsNudge w h (pointAt ps i)))"
  by (auto simp: reached_def fwdReach_def bwdReach_def)

lemma reached_iff':
  assumes "k < length ps div 2"
  shows "reached w h ps k \<longleftrightarrow> fwdReach w h ps 0 k \<or> bwdReach w h ps (length ps div 2) k"
  using assms by (auto simp: reached_def fwdReach_def bwdReach_def)

lemma fwdReach_mono: "fwdReach w h ps 0 i \<Longrightarrow> j \<le> i \<Longrightarrow> fwdReach w h ps 0 j"
  by (auto simp: fwdReach_def)

lemma checkAndNudgePoints_spec:
  assumes w: "1 \<le> width img" and wu: "width img \<le> 2 ^ 24 + 1"
    and h: "1 \<le> height img" and hu: "height img \<le> 2 ^ 24 + 1"
    and len: "length ps = 2 * n"
  shows "(if \<exists>m<n. reached (width img) (height img) ps m \<and> farOutside (width img) (height img) (pointAt ps m)
          then checkAndNudgePoints img ps = Inl NotFoundException
          else \<exists>ps'. checkAndNudgePoints img ps = Inr ps' \<and> length ps' = length ps \<and>
                 (\<forall>j<n. pointAt ps' j =
                    (if reached (width img) (height img) ps j
                     then clamped (width img) (height img) (pointAt ps j) else pointAt ps j)))"
proof -
  define W where "W = width img"
  define H where "H = height img"
  have n: "length ps div 2 = n" using len by simp
  have reach: "reached W H ps k \<longleftrightarrow> fwdReach W H ps 0 k \<or> bwdReach W H ps n k" if "k < n" for k
    using reached_iff' [of k ps W H] that n by simp
  have bnd: "1 \<le> W" "W \<le> 2 ^ 24 + 1" "1 \<le> H" "H \<le> 2 ^ 24 + 1"
    using w wu h hu by (simp_all add: W_def H_def)
  note F = nudgeFromStart_spec [OF bnd len le0, unfolded mult_0_right]
  show ?thesis unfolding W_def [symmetric] H_def [symmetric]
  proof (cases "\<exists>m<n. fwdReach W H ps 0 m \<and> farOutside W H (pointAt ps m)")
    case True
    with F have "nudgeFromStart W H ps 0 True = Inl NotFoundException" by (simp only: if_P)
    then have "checkAndNudgePoints img ps = Inl NotFoundException"
      by (simp add: checkAndNudgePoints_def W_def H_def)
    moreover from True reach have "\<exists>m<n. reached W H ps m \<and> farOutside W H (pointAt ps m)" by blast
    ultimately show "(if \<exists>m<n. reached W H ps m \<and> farOutside W H (pointAt ps m)
          then checkAndNudgePoints img ps = Inl NotFoundException
          else \<exists>ps'. checkAndNudgePoints img ps = Inr ps' \<and> length ps' = length ps \<and>
                 (\<forall>j<n. pointAt ps' j =
                    (if reached W H ps j then clamped W H (pointAt ps j) else pointAt ps j)))"
      by (simp only: if_P)
  next
    case nf: False
    from F have "\<exists>ps'. nudgeFromStart W H ps 0 True = Inr ps' \<and> length ps' = length ps \<and>
        (\<forall>j<n. pointAt ps' j = (if fwdReach W H ps 0 j then clamped W H (pointAt ps j) else pointAt ps j))"
      by (simp only: if_not_P [OF nf])
    then obtain ps1 where ps1: "nudgeFromStart W H ps 0 True = Inr ps1" "length ps1 = length ps"
      "\<And>j. j < n \<Longrightarrow> pointAt ps1 j = (if fwdReach W H ps 0 j then clamped W H (pointAt ps j) else pointAt ps j)"
      by blast
    have l1: "length ps1 = 2 * n" using ps1(2) len by simp
    have chk: "checkAndNudgePoints img ps = nudgeFromEnd W H ps1 (2 * int n - 2) True"
      using ps1(1) l1 by (simp add: checkAndNudgePoints_def W_def H_def)
    note B = nudgeFromEnd_spec [OF bnd l1 order_refl]
    have same: "pointAt ps1 i = pointAt ps i" if "\<not> fwdReach W H ps 0 j" "j \<le> i" "i < n" for i j
      using ps1(3) [OF that(3)] that fwdReach_mono [of W H ps i j] by auto
    have bw: "bwdReach W H ps1 n j \<longleftrightarrow> bwdReach W H ps n j" if "\<not> fwdReach W H ps 0 j" "j < n" for j
      using same [OF that(1)] that(2) by (auto simp: bwdReach_def)
    have notfar1: "\<not> farOutside W H (pointAt ps1 j)" if "fwdReach W H ps 0 j" "j < n" for j
    proof -
      from nf that have "\<not> farOutside W H (pointAt ps j)" by blast
      with ps1(3) [OF that(2)] that(1) w h show ?thesis
        by (simp add: clamped_not_far W_def H_def)
    qed
    have e: "(\<exists>m<n. bwdReach W H ps1 n m \<and> farOutside W H (pointAt ps1 m)) \<longleftrightarrow>
             (\<exists>m<n. reached W H ps m \<and> farOutside W H (pointAt ps m))"
    proof
      assume "\<exists>m<n. bwdReach W H ps1 n m \<and> farOutside W H (pointAt ps1 m)"
      then obtain m where m: "m < n" "bwdReach W H ps1 n m" "farOutside W H (pointAt ps1 m)" by blast
      from m(1,3) notfar1 have nr: "\<not> fwdReach W H ps 0 m" by blast
      from bw [OF nr m(1)] m(2) have "bwdReach W H ps n m" by simp
      moreover from same [OF nr order_refl m(1)] m(3) have "farOutside W H (pointAt ps m)" by simp
      ultimately show "\<exists>m<n. reached W H ps m \<and> farOutside W H (pointAt ps m)"
        using m(1) reach by blast
    next
      assume "\<exists>m<n. reached W H ps m \<and> farOutside W H (pointAt ps m)"
      then obtain m where m: "m < n" "reached W H ps m" "farOutside W H (pointAt ps m)" by blast
      from m(1,3) nf have nr: "\<not> fwdReach W H ps 0 m" by blast
      with m(1,2) reach have "bwdReach W H ps n m" by blast
      with bw [OF nr m(1)] have "bwdReach W H ps1 n m" by simp
      moreover from same [OF nr order_refl m(1)] m(3) have "farOutside W H (pointAt ps1 m)" by simp
      ultimately show "\<exists>m<n. bwdReach W H ps1 n m \<and> farOutside W H (pointAt ps1 m)"
        using m(1) by blast
    qed
    show "(if \<exists>m<n. reached W H ps m \<and> farOutside W H (pointAt ps m)
          then checkAndNudgePoints img ps = Inl NotFoundException
          else \<exists>ps'. checkAndNudgePoints img ps = Inr ps' \<and> length ps' = length ps \<and>
                 (\<forall>j<n. pointAt ps' j =
                    (if reached W H ps j then clamped W H (pointAt ps j) else pointAt ps j)))"
    proof (cases "\<exists>m<n. reached W H ps m \<and> farOutside W H (pointAt ps m)")
      case True
      with e have "\<exists>m<n. bwdReach W H ps1 n m \<and> farOutside W H (pointAt ps1 m)" by blast
      with B have "nudgeFromEnd W H ps1 (2 * int n - 2) True = Inl NotFoundException"
        by (simp only: if_P)
      with True chk show ?thesis by (simp only: if_P)
    next
      case False
      with e have ne: "\<not> (\<exists>m<n. bwdReach W H ps1 n m \<and> farOutside W H (pointAt ps1 m))" by blast
      from B have "\<exists>ps'. nudgeFromEnd W H ps1 (2 * int n - 2) True = Inr ps' \<and> length ps' = length ps1 \<and>
          (\<forall>j<n. pointAt ps' j = (if bwdReach W H ps1 n j then clamped W H (pointAt ps1 j) else pointAt ps1 j))"
        by (simp only: if_not_P [OF ne])
      then obtain ps2 where ps2: "nudgeFromEnd W H ps1 (2 * int n - 2) True = Inr ps2"
        "length ps2 = length ps1"
        "\<And>j. j < n \<Longrightarrow> pointAt ps2 j = (if bwdReach W H ps1 n j then clamped W H (pointAt ps1 j) else pointAt ps1 j)"
        by blast
      have "pointAt ps2 j = (if reached W H ps j then clamped W H (pointAt ps j) else pointAt ps j)"
        if j: "j < n" for j
      proof (cases "fwdReach W H ps 0 j")
        case True
        with ps1(3) [OF j] have "pointAt ps1 j = clamped W H (pointAt ps j)" by simp
        with ps2(3) [OF j] w h have "pointAt ps2 j = clamped W H (pointAt ps j)"
          by (simp add: clamped_idem W_def H_def)
        with True reach [OF j] show ?thesis by simp
      next
        case False
        with ps1(3) [OF j] have "pointAt ps1 j = pointAt ps j" by simp
        with ps2(3) [OF j] bw [OF False j] False reach [OF j] show ?thesis by simp
      qed
      with ps2(1,2) ps1(2) chk False show ?thesis by simp
    qed
  qed
qed

text \<open>
  C3, as stated, asks that every point of the batch whose floor coordinate is \<open>-1\<close>, the
  width or the height is clamped onto the nearest valid edge, and that sampling a 10 x 10
  image with corners at (-1.1, -1.1) fails. Three inputs show otherwise. Each scan stops at
  the first point that needs no nudge, so a point between two points inside the image is
  not inspected: in the first batch the second point has the floor abscissa \<open>-1\<close> and is
  returned as it was. With the corner of the sampled quadrilateral at (-1.1, -1.1) and
  modules one pixel wide, the first sample point is the module centre (-0.6, -0.6), which
  is nudged, and \<open>sampleGrid\<close> returns a grid. In an image 16777220 pixels wide the store
  of \<open>width - 1\<close> rounds to the single-precision value 16777220, so the abscissa stays
  on the width.
\<close>

theorem unscanned_point_not_clamped:
  "checkAndNudgePoints \<lparr>width = 10, height = 10, rowSize = 1, bits = [1,0,0,0,0,0,0,0,0,0]\<rparr>
     [Num 5, Num 5, Num (- 0.5), Num 5, Num 5, Num 5]
     = Inr [Num 5, Num 5, Num (- 0.5), Num 5, Num 5, Num 5] \<and>
   floor_n (Num (- 0.5)) = Num (- 1) \<and>
   pointAt [Num 5, Num 5, Num (- 0.5), Num 5, Num 5, Num 5] 1
     \<noteq> clamped 10 10 (pointAt [Num 5, Num 5, Num (- 0.5), Num 5, Num 5, Num 5] 1) \<and>
   sampleGrid \<lparr>width = 10, height = 10, rowSize = 1, bits = [1,0,0,0,0,0,0,0,0,0]\<rparr> 2 2
     (Num 0) (Num 0) (Num 2) (Num 0) (Num 2) (Num 2) (Num 0) (Num 2)
     (literal (- 1.1)) (literal (- 1.1)) (literal 0.9) (literal (- 1.1))
     (literal 0.9) (literal 0.9) (literal (- 1.1)) (literal 0.9)
     = Inr \<lparr>width = 2, height = 2, rowSize = 1, bits = [3, 3]\<rparr> \<and>
   checkAndNudgePoints
     \<lparr>width = 16777220, height = 10, rowSize = 524289, bits = replicate 5242890 0\<rparr>
     [Num 16777220, Num 5] = Inr [Num 16777220, Num 5] \<and>
   pointAt [Num 16777220, Num 5] 0 \<noteq> clamped 16777220 10 (pointAt [Num 16777220, Num 5] 0)"
proof -
  let ?img = "\<lparr>width = 10, height = 10, rowSize = 1, bits = [1,0,0,0,0,0,0,0,0,0]\<rparr>"
  let ?a = "Num (- (2476979795053773 / 2251799813685248))"
  let ?b = "Num (8106479329266893 / 9007199254740992)"
  let ?t = "\<lparr>a11 = Num 4, a21 = Num 0, a31 = Num (- (2476979795053773 / 562949953421312)),
             a12 = Num 0, a22 = Num 4, a32 = Num (- (2476979795053773 / 562949953421312)),
             a13 = Num 0, a23 = Num 0, a33 = Num 4\<rparr>"
  let ?m = "Num (- (5033165 / 8388608))"
  let ?p = "Num (13421773 / 33554432)"
  have c1: "checkAndNudgePoints ?img [Num 5, Num 5, Num (- (1 / 2)), Num 5, Num 5, Num 5]
              = Inr [Num 5, Num 5, Num (- (1 / 2)), Num 5, Num 5, Num 5]"
    by (simp add: sampler_eval buf_eval num_eval)
  have c2: "pointAt [Num 5, Num 5, Num (- (1 / 2)), Num 5, Num 5, Num 5] 1
              \<noteq> clamped 10 10 (pointAt [Num 5, Num 5, Num (- (1 / 2)), Num 5, Num 5, Num 5] 1)"
    by (simp add: pointAt_def clamped_def clampCoord_def eq_n_def ofInt_def)
  have l: "literal (- (11 / 10)) = ?a" "literal (9 / 10) = ?b"
    by (simp_all add: num_eval)
  have q: "quadrilateralToQuadrilateral
             (Num 0) (Num 0) (Num 2) (Num 0) (Num 2) (Num 2) (Num 0) (Num 2) ?a ?a ?b ?a ?b ?b ?a ?b
           = ?t"
    by (simp add: quadrilateralToQuadrilateral_def quadrilateralToSquare_def
          squareToQuadrilateral_def buildAdjoint_def times_t_def newPerspectiveTransform_def
          eq_n_def num_eval)
  have iv: "add_n (ofInt 0) (Num (1 / 2)) = Num (1 / 2)" "add_n (ofInt 1) (Num (1 / 2)) = Num (3 / 2)"
    by (simp_all add: num_eval)
  have f: "fillPoints [Num 0, Num 0, Num 0, Num 0] (Num (1 / 2)) 0
             = [Num (1 / 2), Num (1 / 2), Num (3 / 2), Num (1 / 2)]"
    "fillPoints [Num 0, Num 0, ?p, Num 0] (Num (3 / 2)) 0
             = [Num (1 / 2), Num (3 / 2), Num (3 / 2), Num (3 / 2)]"
    by (simp_all add: fillPoints.simps num_eval buf_eval)
  have t: "transformPoints ?t [Num (1 / 2), Num (1 / 2), Num (3 / 2), Num (1 / 2)] = [?m, ?m, ?p, ?m]"
    "transformPoints ?t [Num (1 / 2), Num (3 / 2), Num (3 / 2), Num (3 / 2)] = [?m, ?p, ?p, ?p]"
    by (simp_all add: num_eval)
  have n: "checkAndNudgePoints ?img [?m, ?m, ?p, ?m] = Inr [Num 0, Num 0, ?p, Num 0]"
    "checkAndNudgePoints ?img [?m, ?p, ?p, ?p] = Inr [Num 0, ?p, ?p, ?p]"
    by (simp_all add: sampler_eval buf_eval num_eval)
  have g: "get ?img 0 0 = True"
    by code_simp
  have s: "set_m (set_m \<lparr>width = 2, height = 2, rowSize = 1, bits = [0, 0]\<rparr> 0 0) 1 0
             = \<lparr>width = 2, height = 2, rowSize = 1, bits = [3, 0]\<rparr>"
    "set_m (set_m \<lparr>width = 2, height = 2, rowSize = 1, bits = [3, 0]\<rparr> 0 1) 1 1
             = \<lparr>width = 2, height = 2, rowSize = 1, bits = [3, 3]\<rparr>"
    by code_simp+
  have p: "samplePoints ?img [Num 0, Num 0, ?p, Num 0]
             \<lparr>width = 2, height = 2, rowSize = 1, bits = [0, 0]\<rparr> 0 0
             = \<lparr>width = 2, height = 2, rowSize = 1, bits = [3, 0]\<rparr>"
    "samplePoints ?img [Num 0, ?p, ?p, ?p]
             \<lparr>width = 2, height = 2, rowSize = 1, bits = [3, 0]\<rparr> 1 0
             = \<lparr>width = 2, height = 2, rowSize = 1, bits = [3, 3]\<rparr>"
    by (simp_all add: samplePoints.simps getAt_def elementAt_def g s)
  have r: "sampleGridWithTransform ?img 2 2 ?t
             = Inr \<lparr>width = 2, height = 2, rowSize = 1, bits = [3, 3]\<rparr>"
    by (simp add: sampleGridWithTransform_def newBitMatrix_def sampleRows.simps replicate_numeral
          iv f t n p del: transformPoints.simps)
  have c3: "sampleGrid ?img 2 2
     (Num 0) (Num 0) (Num 2) (Num 0) (Num 2) (Num 2) (Num 0) (Num 2)
     (literal (- (11 / 10))) (literal (- (11 / 10))) (literal (9 / 10)) (literal (- (11 / 10)))
     (literal (9 / 10)) (literal (9 / 10)) (literal (- (11 / 10))) (literal (9 / 10))
     = Inr \<lparr>width = 2, height = 2, rowSize = 1, bits = [3, 3]\<rparr>"
    by (simp only: sampleGrid_def l q Let_def r)
  have c4: "checkAndNudgePoints
     \<lparr>width = 16777220, height = 10, rowSize = 524289, bits = replicate 5242890 0\<rparr>
     [Num 16777220, Num 5] = Inr [Num 16777220, Num 5]"
    by (simp add: sampler_eval elementAt_def storeElement_def eq_n_def lt_n_def gt_n_def
          num_eval)
  have c5: "pointAt [Num 16777220, Num 5] 0 \<noteq> clamped 16777220 10 (pointAt [Num 16777220, Num 5] 0)"
    by (simp add: pointAt_def clamped_def clampCoord_def eq_n_def ofInt_def)
  show ?thesis using c1 c2 c3 c4 c5 by simp
qed

text \<open>
  C3, amended: for an image of width \<open>w\<close> and height \<open>h\<close> between 1 and \<open>2 ^ 24 + 1\<close>
  (so that \<open>w - 1\<close> and \<open>h - 1\<close> are stored exactly in single precision) and a batch
  of points, \<open>checkAndNudgePoints\<close> throws \<open>NotFoundException\<close> when a point reached by
  one of its two scans lies more than one unit outside (floor coordinate \<open>< -1\<close>, \<open>> w\<close>
  or \<open>> h\<close>); otherwise it succeeds, every point reached by a scan is clamped onto the
  nearest valid edge (a floor coordinate \<open>-1\<close> becomes \<open>0\<close>, \<open>w\<close> becomes \<open>w - 1\<close>, \<open>h\<close>
  becomes \<open>h - 1\<close>) and every other point is left as it was. In a 10 x 10 image the
  point (-0.9, -0.9) is nudged to (0, 0) and sampling it succeeds, and the point
  (-1.1, -1.1) fails with \<open>NotFoundException\<close>.
\<close>

theorem checkAndNudgePoints_scanned_points:
  assumes "1 \<le> width img" and "width img \<le> 2 ^ 24 + 1"
    and "1 \<le> height img" and "height img \<le> 2 ^ 24 + 1"
    and "even (length points)"
  shows "((\<exists>m \<in> {0..<length points div 2}.
            reached (width img) (height img) points m \<and>
            farOutside (width img) (height img) (pointAt points m))
          \<longrightarrow> checkAndNudgePoints img points = Inl NotFoundException) \<and>
         ((\<forall>m \<in> {0..<length points div 2}.
            reached (width img) (height img) points m \<longrightarrow>
            \<not> farOutside (width img) (height img) (pointAt points m))
          \<longrightarrow> (\<exists>points'. checkAndNudgePoints img points = Inr points' \<and>
                 length points' = length points \<and>
                 (\<forall>j \<in> {0..<length points div 2}.
                    pointAt points' j =
                      (if reached (width img) (height img) points j
                       then clamped (width img) (height img) (pointAt points j)
                       else pointAt points j)))) \<and>
         checkAndNudgePoints \<lparr>width = 10, height = 10, rowSize = 1, bits = [1,0,0,0,0,0,0,0,0,0]\<rparr>
           [fround (literal (- 0.9)), fround (literal (- 0.9))] = Inr [Num 0, Num 0] \<and>
         checkAndNudgePoints \<lparr>width = 10, height = 10, rowSize = 1, bits = [1,0,0,0,0,0,0,0,0,0]\<rparr>
           [fround (literal (- 1.1)), fround (literal (- 1.1))] = Inl NotFoundException \<and>
         sampleGridWithTransform \<lparr>width = 10, height = 10, rowSize = 1, bits = [1,0,0,0,0,0,0,0,0,0]\<rparr> 1 1
           \<lparr>a11 = Num 1, a21 = Num 0, a31 = literal (- 1.4), a12 = Num 0, a22 = Num 1,
            a32 = literal (- 1.4), a13 = Num 0, a23 = Num 0, a33 = Num 1\<rparr>
           = Inr \<lparr>width = 1, height = 1, rowSize = 1, bits = [1]\<rparr> \<and>
         sampleGridWithTransform \<lparr>width = 10, height = 10, rowSize = 1, bits = [1,0,0,0,0,0,0,0,0,0]\<rparr> 1 1
           \<lparr>a11 = Num 1, a21 = Num 0, a31 = literal (- 1.6), a12 = Num 0, a22 = Num 1,
            a32 = literal (- 1.6), a13 = Num 0, a23 = Num 0, a33 = Num 1\<rparr>
           = Inl NotFoundException"
proof -
  define n where "n = length points div 2"
  from assms(5) have len: "length points = 2 * n" by (auto simp: n_def)
  note S = checkAndNudgePoints_spec [OF assms(1-4) len]
  have general: "((\<exists>m \<in> {0..<n}.
            reached (width img) (height img) points m \<and>
            farOutside (width img) (height img) (pointAt points m))
          \<longrightarrow> checkAndNudgePoints img points = Inl NotFoundException) \<and>
         ((\<forall>m \<in> {0..<n}.
            reached (width img) (height img) points m \<longrightarrow>
            \<not> farOutside (width img) (height img) (pointAt points m))
          \<longrightarrow> (\<exists>points'. checkAndNudgePoints img points = Inr points' \<and>
                 length points' = length points \<and>
                 (\<forall>j \<in> {0..<n}.
                    pointAt points' j =
                      (if reached (width img) (height img) points j
                       then clamped (width img) (height img) (pointAt points j)
                       else pointAt points j))))"
  proof (intro conjI impI)
    assume "\<exists>m\<in>{0..<n}. reached (width img) (height img) points m \<and>
              farOutside (width img) (height img) (pointAt points m)"
    then have "\<exists>m<n. reached (width img) (height img) points m \<and>
              farOutside (width img) (height img) (pointAt points m)" by auto
    with S show "checkAndNudgePoints img points = Inl NotFoundException" by (simp only: if_P)
  next
    assume "\<forall>m\<in>{0..<n}. reached (width img) (height img) points m \<longrightarrow>
              \<not> farOutside (width img) (height img) (pointAt points m)"
    then have ne: "\<not> (\<exists>m<n. reached (width img) (height img) points m \<and>
              farOutside (width img) (height img) (pointAt points m))" by auto
    from S have "\<exists>ps'. checkAndNudgePoints img points = Inr ps' \<and> length ps' = length points \<and>
                 (\<forall>j<n. pointAt ps' j =
                    (if reached (width img) (height img) points j
                     then clamped (width img) (height img) (pointAt points j) else pointAt points j))"
      by (simp only: if_not_P [OF ne])
    then show "\<exists>points'. checkAndNudgePoints img points = Inr points' \<and>
                 length points' = length points \<and>
                 (\<forall>j \<in> {0..<n}.
                    pointAt points' j =
                      (if reached (width img) (height img) points j
                       then clamped (width img) (height img) (pointAt points j)
                       else pointAt points j))"
      by auto
  qed
  let ?img = "\<lparr>width = 10, height = 10, rowSize = 1, bits = [1,0,0,0,0,0,0,0,0,0]\<rparr>"
  let ?a = "Num (- (7549747 / 8388608))"
  let ?b = "Num (- (9227469 / 8388608))"
  have l: "literal (- (9 / 10)) = Num (- (8106479329266893 / 9007199254740992))"
    "literal (- (11 / 10)) = Num (- (2476979795053773 / 2251799813685248))"
    "literal (- (7 / 5)) = Num (- (3152519739159347 / 2251799813685248))"
    "literal (- (8 / 5)) = Num (- (3602879701896397 / 2251799813685248))"
    by (simp_all add: num_eval)
  have fr: "fround (Num (- (8106479329266893 / 9007199254740992))) = ?a"
    "fround (Num (- (2476979795053773 / 2251799813685248))) = ?b"
    by (simp_all add: num_eval)
  have n: "checkAndNudgePoints ?img [?a, ?a] = Inr [Num 0, Num 0]"
    "checkAndNudgePoints ?img [?b, ?b] = Inl NotFoundException"
    by (simp_all add: sampler_eval buf_eval num_eval)
  have iv: "add_n (ofInt 0) (Num (1 / 2)) = Num (1 / 2)"
    by (simp add: num_eval)
  have f: "fillPoints [Num 0, Num 0] (Num (1 / 2)) 0 = [Num (1 / 2), Num (1 / 2)]"
    by (simp add: fillPoints.simps num_eval buf_eval)
  have t: "transformPoints
             \<lparr>a11 = Num 1, a21 = Num 0, a31 = Num (- (3152519739159347 / 2251799813685248)),
              a12 = Num 0, a22 = Num 1, a32 = Num (- (3152519739159347 / 2251799813685248)),
              a13 = Num 0, a23 = Num 0, a33 = Num 1\<rparr> [Num (1 / 2), Num (1 / 2)] = [?a, ?a]"
    "transformPoints
             \<lparr>a11 = Num 1, a21 = Num 0, a31 = Num (- (3602879701896397 / 2251799813685248)),
              a12 = Num 0, a22 = Num 1, a32 = Num (- (3602879701896397 / 2251799813685248)),
              a13 = Num 0, a23 = Num 0, a33 = Num 1\<rparr> [Num (1 / 2), Num (1 / 2)] = [?b, ?b]"
    by (simp_all add: num_eval)
  have g: "get ?img 0 0 = True"
    by code_simp
  have s: "set_m \<lparr>width = 1, height = 1, rowSize = 1, bits = [0]\<rparr> 0 0
             = \<lparr>width = 1, height = 1, rowSize = 1, bits = [1]\<rparr>"
    by code_simp
  have p: "samplePoints ?img [Num 0, Num 0] \<lparr>width = 1, height = 1, rowSize = 1, bits = [0]\<rparr> 0 0
             = \<lparr>width = 1, height = 1, rowSize = 1, bits = [1]\<rparr>"
    by (simp add: samplePoints.simps getAt_def elementAt_def g s)
  have examples:
    "checkAndNudgePoints ?img [fround (literal (- (9 / 10))), fround (literal (- (9 / 10)))]
       = Inr [Num 0, Num 0] \<and>
     checkAndNudgePoints ?img [fround (literal (- (11 / 10))), fround (literal (- (11 / 10)))]
       = Inl NotFoundException \<and>
     sampleGridWithTransform ?img 1 1
       \<lparr>a11 = Num 1, a21 = Num 0, a31 = literal (- (7 / 5)), a12 = Num 0, a22 = Num 1,
        a32 = literal (- (7 / 5)), a13 = Num 0, a23 = Num 0, a33 = Num 1\<rparr>
       = Inr \<lparr>width = 1, height = 1, rowSize = 1, bits = [1]\<rparr> \<and>
     sampleGridWithTransform ?img 1 1
       \<lparr>a11 = Num 1, a21 = Num 0, a31 = literal (- (8 / 5)), a12 = Num 0, a22 = Num 1,
        a32 = literal (- (8 / 5)), a13 = Num 0, a23 = Num 0, a33 = Num 1\<rparr>
       = Inl NotFoundException"
    unfolding l fr
    by (simp add: sampleGridWithTransform_def newBitMatrix_def sampleRows.simps replicate_numeral
          iv f t n p del: transformPoints.simps fround.simps)
  from general examples show ?thesis unfolding n_def by simp
qed

theorem checkAndNudgePoints_scanned_points_witness:
  "1 \<le> width \<lparr>width = 10, height = 10, rowSize = 1, bits = [1,0,0,0,0,0,0,0,0,0]\<rparr> \<and>
   width \<lparr>width = 10, height = 10, rowSize = 1, bits = [1,0,0,0,0,0,0,0,0,0]\<rparr> \<le> 2 ^ 24 + 1 \<and>
   1 \<le> height \<lparr>width = 10, height = 10, rowSize = 1, bits = [1,0,0,0,0,0,0,0,0,0]\<rparr> \<and>
   height \<lparr>width = 10, height = 10, rowSize = 1, bits = [1,0,0,0,0,0,0,0,0,0]\<rparr> \<le> 2 ^ 24 + 1 \<and>
   even (length [Num (- 0.5), Num (- 0.5), Num 5, Num 5, Num 10.5, Num 3]) \<and>
   \<not> farOutside 10 10 (pointAt [Num (- 0.5), Num (- 0.5), Num 5, Num 5, Num 10.5, Num 3] 0) \<and>
   \<not> farOutside 10 10 (pointAt [Num (- 0.5), Num (- 0.5), Num 5, Num 5, Num 10.5, Num 3] 1) \<and>
   \<not> farOutside 10 10 (pointAt [Num (- 0.5), Num (- 0.5), Num 5, Num 5, Num 10.5, Num 3] 2) \<and>
   reached 10 10 [Num (- 0.5), Num (- 0.5), Num 5, Num 5, Num 10.5, Num 3] 0 \<and>
   reached 10 10 [Num (- 0.5), Num (- 0.5), Num 5, Num 5, Num 10.5, Num 3] 1 \<and>
   reached 10 10 [Num (- 0.5), Num (- 0.5), Num 5, Num 5, Num 10.5, Num 3] 2 \<and>
   checkAndNudgePoints \<lparr>width = 10, height = 10, rowSize = 1, bits = [1,0,0,0,0,0,0,0,0,0]\<rparr>
     [Num (- 0.5), Num (- 0.5), Num 5, Num 5, Num 10.5, Num 3]
     = Inr [Num 0, Num 0, Num 5, Num 5, Num 9, Num 3] \<and>
   pointAt [Num 0, Num 0, Num 5, Num 5, Num 9, Num 3] 2
     = clamped 10 10 (pointAt [Num (- 0.5), Num (- 0.5), Num 5, Num 5, Num 10.5, Num 3] 2) \<and>
   reached 10 10 [Num 5, Num 5, Num 3, Num 3, Num 10.5, Num 11.5] 2 \<and>
   farOutside 10 10 (pointAt [Num 5, Num 5, Num 3, Num 3, Num 10.5, Num 11.5] 2) \<and>
   checkAndNudgePoints \<lparr>width = 10, height = 10, rowSize = 1, bits = [1,0,0,0,0,0,0,0,0,0]\<rparr>
     [Num 5, Num 5, Num 3, Num 3, Num 10.5, Num 11.5] = Inl NotFoundException"
proof -
  let ?img = "\<lparr>width = 10, height = 10, rowSize = 1, bits = [1,0,0,0,0,0,0,0,0,0]\<rparr>"
  let ?p = "[Num (- 0.5), Num (- 0.5), Num 5, Num 5, Num 10.5, Num 3]"
  let ?q = "[Num 5, Num 5, Num 3, Num 3, Num 10.5, Num 11.5]"
  have w: "1 \<le> width ?img" "width ?img \<le> 2 ^ 24 + 1" "1 \<le> height ?img" "height ?img \<le> 2 ^ 24 + 1"
    by simp_all
  have e1: "even (length ?p)" and e2: "even (length ?q)" by simp_all
  have nf: "\<not> farOutside 10 10 (pointAt ?p 0)" "\<not> farOutside 10 10 (pointAt ?p 1)"
    "\<not> farOutside 10 10 (pointAt ?p 2)"
    by code_simp+
  have re: "reached 10 10 ?p 0" "reached 10 10 ?p 1" "reached 10 10 ?p 2"
    by code_simp+
  have ok: "\<forall>m \<in> {0..<length ?p div 2}.
      reached (width ?img) (height ?img) ?p m \<longrightarrow>
      \<not> farOutside (width ?img) (height ?img) (pointAt ?p m)"
    by code_simp
  have rq: "reached 10 10 ?q 2" and fq: "farOutside 10 10 (pointAt ?q 2)"
    by code_simp+
  have far: "\<exists>m \<in> {0..<length ?q div 2}.
      reached (width ?img) (height ?img) ?q m \<and>
      farOutside (width ?img) (height ?img) (pointAt ?q m)"
    by code_simp
  from checkAndNudgePoints_scanned_points [OF w e1, THEN conjunct2, THEN conjunct1, THEN mp, OF ok]
  obtain points' where p': "checkAndNudgePoints ?img ?p = Inr points'"
    and cl: "\<forall>j \<in> {0..<length ?p div 2}. pointAt points' j =
          (if reached (width ?img) (height ?img) ?p j
           then clamped (width ?img) (height ?img) (pointAt ?p j) else pointAt ?p j)"
    by blast
  have r: "checkAndNudgePoints ?img ?p = Inr [Num 0, Num 0, Num 5, Num 5, Num 9, Num 3]"
    by (simp add: sampler_eval buf_eval num_eval)
  with p' have "points' = [Num 0, Num 0, Num 5, Num 5, Num 9, Num 3]" by simp
  moreover have "(2::nat) \<in> {0..<length ?p div 2}" by simp
  ultimately have c2: "pointAt [Num 0, Num 0, Num 5, Num 5, Num 9, Num 3] 2 = clamped 10 10 (pointAt ?p 2)"
    using cl re(3) by auto
  from checkAndNudgePoints_scanned_points [OF w e2, THEN conjunct1, THEN mp, OF far]
  have f: "checkAndNudgePoints ?img ?q = Inl NotFoundException" .
  show ?thesis by (intro conjI w e1 nf re r c2 rq fq f)
qed

subsection \<open>Bounding box and corner queries\<close>

lemma all_ones: "(0xFFFFFFFF :: int32) = - 1" by simp

lemma push_bit_1_eq_0: "(push_bit n 1 :: int32) = 0 \<longleftrightarrow> 32 \<le> n"
  by (simp add: exp_eq_zero_iff)

lemma push_bit_push_bit_1: "push_bit m (push_bit j (1::int32)) = push_bit (m + j) 1"
  by (simp only: push_bit_push_bit)

lemma drop_bit_push_bit_1:
  assumes "j \<le> b" "j < 32"
  shows "drop_bit b (push_bit j (1::int32)) = of_bool (b = j)"
proof (rule bit_eqI)
  fix n
  assume "possible_bit TYPE(int32) n"
  show "bit (drop_bit b (push_bit j (1::int32))) n = bit (of_bool (b = j) :: int32) n"
    using assms by (auto simp: bit_drop_bit_eq bit_exp_iff bit_1_iff possible_bit_word)
qed

lemma scanUp_bit:
  assumes "j < 32" "0 \<le> b" "b \<le> int j"
  shows "scanUp (push_bit j 1) b = Some (int j)"
  using assms
proof (induction "nat (int j - b)" arbitrary: b)
  case 0
  then have b: "b = int j" by simp
  have nz: "(push_bit j 1 :: int32) \<noteq> 0" using 0(2) by (simp only: push_bit_1_eq_0)
  have "(31 - int j) mod 32 = 31 - int j" using 0(2) by simp
  then have "shl (push_bit j 1 :: int32) (31 - b) = push_bit (nat (31 - int j) + j) 1"
    unfolding shl_def b by (simp only: push_bit_push_bit_1)
  moreover have "nat (31 - int j) + j = 31" using 0(2) by simp
  ultimately have "shl (push_bit j 1 :: int32) (31 - b) = push_bit 31 1" by simp
  then have "shl (push_bit j 1 :: int32) (31 - b) AND 0xFFFFFFFF \<noteq> 0"
    by (simp add: all_ones)
  with nz show ?case by (subst scanUp.simps) (simp add: b)
next
  case (Suc d)
  then have b: "b < int j" by simp
  have nz: "(push_bit j 1 :: int32) \<noteq> 0" using Suc.prems(1) by (simp only: push_bit_1_eq_0)
  have "(31 - b) mod 32 = 31 - b" using Suc.prems b by simp
  then have "shl (push_bit j 1 :: int32) (31 - b) = push_bit (nat (31 - b) + j) 1"
    unfolding shl_def by (simp only: push_bit_push_bit_1)
  moreover have "32 \<le> nat (31 - b) + j" using b Suc.prems by simp
  ultimately have "shl (push_bit j 1 :: int32) (31 - b) = 0"
    by (simp only: push_bit_1_eq_0)
  then have "scanUp (push_bit j 1) b = scanUp (push_bit j 1) (b + 1)"
    using nz by (subst scanUp.simps) simp
  also have "\<dots> = Some (int j)"
    using Suc.hyps(1) [of "b + 1"] Suc.hyps(2) Suc.prems b by simp
  finally show ?case .
qed

lemma scanDown_bit:
  assumes "j < 32" "b \<le> 31" "int j \<le> b"
  shows "scanDown (push_bit j 1) b = Some (int j)"
  using assms
proof (induction "nat (b - int j)" arbitrary: b)
  case 0
  then have b: "b = int j" by simp
  have nz: "(push_bit j 1 :: int32) \<noteq> 0" using 0(2) by (simp only: push_bit_1_eq_0)
  have "int j mod 32 = int j" using 0(2) by simp
  then have "ushr (push_bit j 1 :: int32) b = 1"
    unfolding ushr_def b using drop_bit_push_bit_1 [OF order_refl 0(2)] by simp
  with nz show ?case by (subst scanDown.simps) (simp add: b)
next
  case (Suc d)
  then have b: "int j < b" by simp
  have nz: "(push_bit j 1 :: int32) \<noteq> 0" using Suc.prems(1) by (simp only: push_bit_1_eq_0)
  have "b mod 32 = b" using Suc.prems b by simp
  moreover have "j \<le> nat b" "nat b \<noteq> j" using b by simp_all
  ultimately have "ushr (push_bit j 1 :: int32) b = 0"
    unfolding ushr_def using drop_bit_push_bit_1 [of j "nat b"] Suc.prems(1) by simp
  then have "scanDown (push_bit j 1) b = scanDown (push_bit j 1) (b - 1)"
    using nz by (subst scanDown.simps) simp
  also have "\<dots> = Some (int j)"
    using Suc.hyps(1) [of "b - 1"] Suc.hyps(2) Suc.prems b by simp
  finally show ?case .
qed

text \<open>The word of the column word \<open>c\<close> of row \<open>y\<close> is at \<open>y * rowSize + c\<close>.\<close>

lemma offset_range:
  assumes "0 \<le> y" "y < h" "0 \<le> c" "c < (r::int)"
  shows "0 \<le> y * r + c" "y * r + c < r * h"
proof -
  from assms have r: "0 < r" by simp
  from assms r show "0 \<le> y * r + c" by simp
  from assms have "y + 1 \<le> h" by simp
  with r have "(y + 1) * r \<le> h * r" by (intro mult_right_mono) simp_all
  with assms show "y * r + c < r * h" by (simp add: algebra_simps)
qed

lemma offset_div_mod:
  assumes "0 \<le> c" "c < (r::int)"
  shows "(y * r + c) div r = y" "(y * r + c) mod r = c"
  using assms by simp_all

lemma wordAt_in:
  assumes "wellFormed m" "0 \<le> y" "y < height m" "0 \<le> c" "c < rowSize m"
  shows "wordAt (bits m) (y * rowSize m + c) = Some (bits m ! nat (y * rowSize m + c))"
  using offset_range [OF assms(2-5)] assms(1) by (simp add: wordAt_def wellFormed_def)

lemma bit_test: "(drop_bit n (w::int32) AND 1 \<noteq> 0) = bit w n"
  by (simp add: bit_iff_odd_drop_bit and_one_eq mod_2_eq_odd)

lemma get_word:
  assumes "wordAt (bits m) (y * rowSize m + x div 32) = Some v"
  shows "get m x y = bit v (nat (x mod 32))"
  using assms by (simp add: get_def toInt32_def ushr_def and31 bit_test)

lemma get_bit:
  assumes "wellFormed m" "0 \<le> y" "y < height m" "0 \<le> c" "c < rowSize m" "j < 32"
  shows "get m (32 * c + int j) y = bit (bits m ! nat (y * rowSize m + c)) j"
proof -
  have d: "(32 * c + int j) div 32 = c" and md: "nat ((32 * c + int j) mod 32) = j"
    using assms(6) by simp_all
  from wordAt_in [OF assms(1-5)]
  have "wordAt (bits m) (y * rowSize m + (32 * c + int j) div 32) = Some (bits m ! nat (y * rowSize m + c))"
    by (simp only: d)
  from get_word [OF this] show ?thesis by (simp only: md)
qed

text \<open>The words of a matrix are determined by the values of \<open>get\<close>.\<close>

lemma word_from_gets:
  assumes wf: "wellFormed m" and pad: "paddingClear m"
    and y: "0 \<le> y" "y < height m" and c: "0 \<le> c" "c < rowSize m"
    and g: "\<And>x. 0 \<le> x \<Longrightarrow> x < width m \<Longrightarrow> get m x y = P x"
  shows "bits m ! nat (y * rowSize m + c) =
           horner_sum of_bool 2 (map (\<lambda>j. 32 * c + int j < width m \<and> P (32 * c + int j)) [0..<32])"
proof (rule bit_eqI)
  fix j
  assume "possible_bit TYPE(int32) j"
  then have j: "j < 32" by (simp add: possible_bit_word)
  let ?x = "32 * c + int j"
  have x0: "0 \<le> ?x" using c by simp
  have xr: "?x < 32 * rowSize m" using c j by simp
  have "bit (bits m ! nat (y * rowSize m + c)) j = get m ?x y"
    using get_bit [OF wf y c j] by simp
  also have "\<dots> = (?x < width m \<and> P ?x)"
  proof (cases "?x < width m")
    case True
    with g [OF x0 True] show ?thesis by simp
  next
    case False
    with pad y xr have "\<not> get m ?x y" by (simp add: paddingClear_def)
    with False show ?thesis by simp
  qed
  finally show "bit (bits m ! nat (y * rowSize m + c)) j =
      bit (horner_sum of_bool 2 (map (\<lambda>j. 32 * c + int j < width m \<and> P (32 * c + int j)) [0..<32]) :: int32) j"
    using j by (simp add: bit_horner_sum_bit_word_iff)
qed

lemma horner_zero: "horner_sum of_bool 2 (map (\<lambda>j. False) [0..<32]) = (0::int32)"
  by (rule bit_eqI) (simp add: bit_horner_sum_bit_word_iff)

lemma horner_single:
  assumes "j0 < 32"
  shows "horner_sum of_bool 2 (map (\<lambda>j. j = j0) [0..<32]) = (push_bit j0 1 :: int32)"
  by (rule bit_eqI) (use assms in \<open>auto simp: bit_horner_sum_bit_word_iff bit_exp_iff possible_bit_word\<close>)

lemma words_empty:
  assumes wf: "wellFormed m" and pad: "paddingClear m"
    and e: "\<forall>y \<in> {0..<height m}. \<forall>x \<in> {0..<width m}. \<not> get m x y"
    and y: "0 \<le> y" "y < height m" and c: "0 \<le> c" "c < rowSize m"
  shows "wordAt (bits m) (y * rowSize m + c) = Some 0"
proof -
  have "bits m ! nat (y * rowSize m + c) =
           horner_sum of_bool 2 (map (\<lambda>j. 32 * c + int j < width m \<and> False) [0..<32])"
    by (rule word_from_gets [OF wf pad y c]) (use e y in simp)
  then show ?thesis using wordAt_in [OF wf y c] by (simp add: horner_zero)
qed

lemma words_single:
  assumes wf: "wellFormed m" and pad: "paddingClear m"
    and x0: "0 \<le> x0" "x0 < width m" and y0: "0 \<le> y0" "y0 < height m"
    and e: "\<forall>y \<in> {0..<height m}. \<forall>x \<in> {0..<width m}. get m x y \<longleftrightarrow> x = x0 \<and> y = y0"
    and y: "0 \<le> y" "y < height m" and c: "0 \<le> c" "c < rowSize m"
  shows "wordAt (bits m) (y * rowSize m + c) =
           Some (if y = y0 \<and> c = x0 div 32 then push_bit (nat (x0 mod 32)) 1 else 0)"
proof -
  have w: "bits m ! nat (y * rowSize m + c) =
           horner_sum of_bool 2 (map (\<lambda>j. 32 * c + int j < width m \<and> (32 * c + int j = x0 \<and> y = y0)) [0..<32])"
    by (rule word_from_gets [OF wf pad y c]) (use e y in simp)
  have eq: "(32 * c + int j < width m \<and> (32 * c + int j = x0 \<and> y = y0)) \<longleftrightarrow>
            (y = y0 \<and> c = x0 div 32) \<and> j = nat (x0 mod 32)" if "j < 32" for j
  proof -
    have "32 * c + int j = x0 \<longleftrightarrow> c = x0 div 32 \<and> int j = x0 mod 32"
      using that by auto
    moreover have "int j = x0 mod 32 \<longleftrightarrow> j = nat (x0 mod 32)"
      by auto
    ultimately show ?thesis using x0 by auto
  qed
  have "map (\<lambda>j. 32 * c + int j < width m \<and> (32 * c + int j = x0 \<and> y = y0)) [0..<32] =
        map (\<lambda>j. (y = y0 \<and> c = x0 div 32) \<and> j = nat (x0 mod 32)) [0..<32]"
    by (rule map_cong [OF refl]) (simp add: eq)
  with w have w': "bits m ! nat (y * rowSize m + c) =
      horner_sum of_bool 2 (map (\<lambda>j. (y = y0 \<and> c = x0 div 32) \<and> j = nat (x0 mod 32)) [0..<32])"
    by simp
  have lt: "nat (x0 mod 32) < 32" by simp
  show ?thesis
  proof (cases "y = y0 \<and> c = x0 div 32")
    case True
    with w' horner_single [OF lt] wordAt_in [OF wf y c] show ?thesis by simp
  next
    case False
    then have "(\<lambda>j. (y = y0 \<and> c = x0 div 32) \<and> j = nat (x0 mod 32)) = (\<lambda>j. False)"
      by auto
    with w' horner_zero have "bits m ! nat (y * rowSize m + c) = 0" by simp
    with wordAt_in [OF wf y c] False show ?thesis by auto
  qed
qed

lemma rectStep_zero:
  assumes "wordAt (bits m) (y * rowSize m + x32) = Some 0"
  shows "rectStep m y x32 st = Some st"
  using assms by (cases st) (simp add: rectStep_def)

lemma rectCols_skip:
  assumes "x32 \<le> c0" "c0 \<le> rowSize m"
    and "\<And>c. x32 \<le> c \<Longrightarrow> c < c0 \<Longrightarrow> wordAt (bits m) (y * rowSize m + c) = Some 0"
  shows "rectCols m y x32 st = rectCols m y c0 st"
  using assms
proof (induction "nat (c0 - x32)" arbitrary: x32)
  case 0
  then show ?case by simp
next
  case (Suc d)
  then have lt: "x32 < c0" "x32 < rowSize m" by simp_all
  from Suc.prems(3) [OF order_refl lt(1)] have "rectStep m y x32 st = Some st"
    by (rule rectStep_zero)
  with lt have "rectCols m y x32 st = rectCols m y (x32 + 1) st"
    by (subst rectCols.simps) simp
  also have "\<dots> = rectCols m y c0 st"
    using Suc.hyps(2) lt Suc.prems by (intro Suc.hyps(1)) simp_all
  finally show ?case .
qed

lemma rectCols_end: "rowSize m \<le> x32 \<Longrightarrow> rectCols m y x32 st = Some st"
  by (subst rectCols.simps) simp

lemma rectCols_zero:
  assumes "x32 \<le> rowSize m"
    and "\<And>c. x32 \<le> c \<Longrightarrow> c < rowSize m \<Longrightarrow> wordAt (bits m) (y * rowSize m + c) = Some 0"
  shows "rectCols m y x32 st = Some st"
  using rectCols_skip [OF assms(1) order_refl assms(2)] by (simp add: rectCols_end)

lemma rectRows_skip:
  assumes "y \<le> y0" "y0 \<le> height m" "0 \<le> rowSize m"
    and "\<And>y' c. y \<le> y' \<Longrightarrow> y' < y0 \<Longrightarrow> 0 \<le> c \<Longrightarrow> c < rowSize m \<Longrightarrow>
           wordAt (bits m) (y' * rowSize m + c) = Some 0"
  shows "rectRows m y st = rectRows m y0 st"
  using assms
proof (induction "nat (y0 - y)" arbitrary: y)
  case 0
  then show ?case by simp
next
  case (Suc d)
  then have lt: "y < y0" "y < height m" by simp_all
  have "rectCols m y 0 st = Some st"
    by (rule rectCols_zero [OF Suc.prems(3)]) (rule Suc.prems(4) [OF order_refl lt(1)])
  with lt have "rectRows m y st = rectRows m (y + 1) st"
    by (subst rectRows.simps) simp
  also have "\<dots> = rectRows m y0 st"
    using Suc.hyps(2) lt Suc.prems by (intro Suc.hyps(1)) simp_all
  finally show ?case .
qed

lemma rectRows_end: "height m \<le> y \<Longrightarrow> rectRows m y st = Some st"
  by (subst rectRows.simps) simp

lemma rectRows_zero:
  assumes "y \<le> height m" "0 \<le> rowSize m"
    and "\<And>y' c. y \<le> y' \<Longrightarrow> y' < height m \<Longrightarrow> 0 \<le> c \<Longrightarrow> c < rowSize m \<Longrightarrow>
           wordAt (bits m) (y' * rowSize m + c) = Some 0"
  shows "rectRows m y st = Some st"
  using rectRows_skip [OF assms(1) order_refl assms(2,3)] by (simp add: rectRows_end)

lemma rectStep_single:
  assumes w: "wordAt (bits m) (y0 * rowSize m + c0) = Some (push_bit j0 1)"
    and j0: "j0 < 32" and c0: "0 \<le> c0" and y0: "0 \<le> y0" "y0 < height m"
    and x0: "32 * c0 + int j0 < width m"
  shows "rectStep m y0 c0 (width m, height m, -1, -1) =
           Some (32 * c0 + int j0, y0, 32 * c0 + int j0, y0)"
proof -
  have nz: "(push_bit j0 1 :: int32) \<noteq> 0" using j0 by (simp only: push_bit_1_eq_0)
  have up: "scanUp (push_bit j0 1) 0 = Some (int j0)" by (rule scanUp_bit [OF j0]) simp_all
  have dn: "scanDown (push_bit j0 1) 31 = Some (int j0)" by (rule scanDown_bit [OF j0]) (use j0 in simp_all)
  have a: "c0 * 32 < width m" using x0 by simp
  have b: "- 1 < c0 * 32 + 31" using c0 by simp
  have c: "c0 * 32 + int j0 < width m" "- 1 < c0 * 32 + int j0" using x0 c0 by simp_all
  show ?thesis
    unfolding rectStep_def prod.case Let_def w toInt32_def option.case
    using nz up dn a b c y0 by (simp add: mult.commute del: push_bit_of_1)
qed

lemma getEnclosingRectangle_empty:
  assumes wf: "wellFormed m"
    and z: "\<And>y c. 0 \<le> y \<Longrightarrow> y < height m \<Longrightarrow> 0 \<le> c \<Longrightarrow> c < rowSize m \<Longrightarrow>
              wordAt (bits m) (y * rowSize m + c) = Some 0"
  shows "getEnclosingRectangle m = Some None"
proof -
  from wf have h: "0 \<le> height m" "1 \<le> width m" by (simp_all add: wellFormed_def)
  from wellFormed_rowSize(1) [OF wf] have r: "0 \<le> rowSize m" by simp
  have "rectRows m 0 (width m, height m, -1, -1) = Some (width m, height m, -1, -1)"
    by (rule rectRows_zero [OF h(1) r]) (rule z)
  then show ?thesis using h by (simp add: getEnclosingRectangle_def)
qed

lemma getEnclosingRectangle_single:
  assumes wf: "wellFormed m"
    and j0: "j0 < 32" and c0: "0 \<le> c0" "c0 < rowSize m" and y0: "0 \<le> y0" "y0 < height m"
    and x0: "32 * c0 + int j0 < width m"
    and z: "\<And>y c. 0 \<le> y \<Longrightarrow> y < height m \<Longrightarrow> 0 \<le> c \<Longrightarrow> c < rowSize m \<Longrightarrow>
              wordAt (bits m) (y * rowSize m + c) =
                Some (if y = y0 \<and> c = c0 then push_bit j0 1 else 0)"
  shows "getEnclosingRectangle m = Some (Some [32 * c0 + int j0, y0, 1, 1])"
proof -
  let ?st0 = "(width m, height m, -1, -1 :: int)"
  let ?st1 = "(32 * c0 + int j0, y0, 32 * c0 + int j0, y0)"
  from wellFormed_rowSize(1) [OF wf] have r: "0 \<le> rowSize m" by simp
  have w0: "wordAt (bits m) (y0 * rowSize m + c0) = Some (push_bit j0 1)"
    using z [OF y0 c0] by simp
  have "rectRows m 0 ?st0 = rectRows m y0 ?st0"
    by (rule rectRows_skip [OF y0(1) _ r]) (use y0 z in auto)
  also have "\<dots> = (case rectCols m y0 0 ?st0 of None \<Rightarrow> None | Some st1 \<Rightarrow> rectRows m (y0 + 1) st1)"
    using y0 by (subst rectRows.simps) simp
  also have "rectCols m y0 0 ?st0 = rectCols m y0 c0 ?st0"
    by (rule rectCols_skip [OF c0(1)]) (use c0 y0 z in auto)
  also have "\<dots> = (case rectStep m y0 c0 ?st0 of None \<Rightarrow> None | Some st1 \<Rightarrow> rectCols m y0 (c0 + 1) st1)"
    using c0 by (subst rectCols.simps) simp
  also have "\<dots> = rectCols m y0 (c0 + 1) ?st1"
    by (simp only: rectStep_single [OF w0 j0 c0(1) y0 x0] option.case)
  also have "\<dots> = Some ?st1"
    by (rule rectCols_zero) (use c0 y0 z in auto)
  finally have "rectRows m 0 ?st0 = rectRows m (y0 + 1) ?st1" by simp
  also have "\<dots> = Some ?st1"
    by (rule rectRows_zero [OF _ r]) (use y0 z in auto)
  finally show ?thesis by (simp add: getEnclosingRectangle_def)
qed

lemma words_nth:
  assumes wf: "wellFormed m"
    and z: "\<And>y c. 0 \<le> y \<Longrightarrow> y < height m \<Longrightarrow> 0 \<le> c \<Longrightarrow> c < rowSize m \<Longrightarrow>
              wordAt (bits m) (y * rowSize m + c) = Some (wd y c)"
    and k: "k < length (bits m)"
  shows "bits m ! k = wd (int k div rowSize m) (int k mod rowSize m)"
proof -
  define y where "y = int k div rowSize m"
  define c where "c = int k mod rowSize m"
  from wellFormed_rowSize(1) [OF wf] have r: "0 < rowSize m" by simp
  have kk: "y * rowSize m + c = int k" by (simp add: y_def c_def)
  have c: "0 \<le> c" "c < rowSize m" using r by (simp_all add: c_def)
  have y0: "0 \<le> y" using r by (simp add: y_def pos_imp_zdiv_nonneg_iff)
  have y1: "y < height m"
  proof (rule ccontr)
    assume "\<not> y < height m"
    then have "height m \<le> y" by simp
    with r have "height m * rowSize m \<le> y * rowSize m" by (intro mult_right_mono) simp_all
    also have "\<dots> \<le> int k" using kk c(1) by linarith
    finally have "rowSize m * height m \<le> int k" by (simp only: mult.commute)
    moreover from wf have "int (length (bits m)) = rowSize m * height m" by (simp add: wellFormed_def)
    ultimately show False using k by linarith
  qed
  from z [OF y0 y1 c] kk k show ?thesis
    by (simp add: wordAt_def y_def [symmetric] c_def [symmetric])
qed

lemma skipZerosUp_first:
  assumes "i \<le> k0" "k0 < length ws" "ws ! k0 \<noteq> 0" "\<And>k. i \<le> k \<Longrightarrow> k < k0 \<Longrightarrow> ws ! k = 0"
  shows "skipZerosUp ws i = k0"
  using assms
proof (induction "k0 - i" arbitrary: i)
  case 0
  then have "i = k0" by simp
  with 0 show ?case by (subst skipZerosUp.simps) simp
next
  case (Suc d)
  then have lt: "i < k0" by simp
  with Suc.prems have "skipZerosUp ws i = skipZerosUp ws (i + 1)"
    by (subst skipZerosUp.simps) simp
  also have "\<dots> = k0"
    using Suc.hyps(2) lt Suc.prems by (intro Suc.hyps(1)) simp_all
  finally show ?case .
qed

lemma skipZerosUp_all:
  assumes "i \<le> length ws" "\<And>k. i \<le> k \<Longrightarrow> k < length ws \<Longrightarrow> ws ! k = 0"
  shows "skipZerosUp ws i = length ws"
  using assms
proof (induction "length ws - i" arbitrary: i)
  case 0
  then have "i = length ws" by simp
  then show ?case by (subst skipZerosUp.simps) simp
next
  case (Suc d)
  then have lt: "i < length ws" by simp
  with Suc.prems have "skipZerosUp ws i = skipZerosUp ws (i + 1)"
    by (subst skipZerosUp.simps) simp
  also have "\<dots> = length ws"
    using Suc.hyps(2) lt Suc.prems by (intro Suc.hyps(1)) simp_all
  finally show ?case .
qed

lemma skipZerosDown_first:
  assumes "int k0 \<le> i" "i < int (length ws)" "ws ! k0 \<noteq> 0"
    "\<And>k. k0 < k \<Longrightarrow> int k \<le> i \<Longrightarrow> ws ! k = 0"
  shows "skipZerosDown ws i = int k0"
  using assms
proof (induction "nat (i - int k0)" arbitrary: i)
  case 0
  then have "i = int k0" by simp
  with 0 show ?case by (subst skipZerosDown.simps) (simp add: wordAt_def)
next
  case (Suc d)
  then have lt: "int k0 < i" by simp
  then have "k0 < nat i" "int (nat i) \<le> i" by simp_all
  from Suc.prems(4) [OF this] have "ws ! nat i = 0" .
  with lt Suc.prems have "skipZerosDown ws i = skipZerosDown ws (i - 1)"
    by (subst skipZerosDown.simps) (simp add: wordAt_def)
  also have "\<dots> = int k0"
    using Suc.hyps(2) lt Suc.prems by (intro Suc.hyps(1)) simp_all
  finally show ?case .
qed

lemma skipZerosDown_all:
  assumes "- 1 \<le> i" "i < int (length ws)" "\<And>k. int k \<le> i \<Longrightarrow> ws ! k = 0"
  shows "skipZerosDown ws i = - 1"
  using assms
proof (induction "nat (i + 1)" arbitrary: i)
  case 0
  then have "i = - 1" by simp
  then show ?case by (subst skipZerosDown.simps) simp
next
  case (Suc d)
  then have lt: "0 \<le> i" by simp
  then have "int (nat i) \<le> i" by simp
  from Suc.prems(3) [OF this] have "ws ! nat i = 0" .
  with lt Suc.prems have "skipZerosDown ws i = skipZerosDown ws (i - 1)"
    by (subst skipZerosDown.simps) (simp add: wordAt_def)
  also have "\<dots> = - 1"
    using Suc.hyps(2) lt Suc.prems by (intro Suc.hyps(1)) simp_all
  finally show ?case .
qed

lemma corners_empty:
  assumes wf: "wellFormed m"
    and z: "\<And>y c. 0 \<le> y \<Longrightarrow> y < height m \<Longrightarrow> 0 \<le> c \<Longrightarrow> c < rowSize m \<Longrightarrow>
              wordAt (bits m) (y * rowSize m + c) = Some 0"
  shows "getTopLeftOnBit m = Some None" "getBottomRightOnBit m = Some None"
proof -
  have n: "bits m ! k = 0" if "k < length (bits m)" for k
    using words_nth [OF wf z that] by simp
  have "skipZerosUp (bits m) 0 = length (bits m)"
    by (rule skipZerosUp_all) (simp_all add: n)
  then show "getTopLeftOnBit m = Some None" by (simp add: getTopLeftOnBit_def)
  have "skipZerosDown (bits m) (int (length (bits m)) - 1) = - 1"
    by (rule skipZerosDown_all) (simp_all add: n)
  then show "getBottomRightOnBit m = Some None" by (simp add: getBottomRightOnBit_def)
qed

lemma corners_single:
  assumes wf: "wellFormed m"
    and j0: "j0 < 32" and c0: "0 \<le> c0" "c0 < rowSize m" and y0: "0 \<le> y0" "y0 < height m"
    and z: "\<And>y c. 0 \<le> y \<Longrightarrow> y < height m \<Longrightarrow> 0 \<le> c \<Longrightarrow> c < rowSize m \<Longrightarrow>
              wordAt (bits m) (y * rowSize m + c) =
                Some (if y = y0 \<and> c = c0 then push_bit j0 1 else 0)"
  shows "getTopLeftOnBit m = Some (Some [32 * c0 + int j0, y0])"
    "getBottomRightOnBit m = Some (Some [32 * c0 + int j0, y0])"
proof -
  define k0 where "k0 = nat (y0 * rowSize m + c0)"
  have rng: "0 \<le> y0 * rowSize m + c0" "y0 * rowSize m + c0 < rowSize m * height m"
    using offset_range [OF y0 c0] by simp_all
  then have ik: "int k0 = y0 * rowSize m + c0" by (simp add: k0_def)
  from wf have len: "int (length (bits m)) = rowSize m * height m" by (simp add: wellFormed_def)
  from rng len have k0: "k0 < length (bits m)" unfolding k0_def by linarith
  have dm: "int k0 div rowSize m = y0" "int k0 mod rowSize m = c0"
    unfolding ik using offset_div_mod [OF c0] by simp_all
  have nz: "(push_bit j0 1 :: int32) \<noteq> 0" using j0 by (simp only: push_bit_1_eq_0)
  have n: "bits m ! k = (if k = k0 then push_bit j0 1 else 0)" if k: "k < length (bits m)" for k
  proof -
    have "k = k0 \<longleftrightarrow> int k div rowSize m = y0 \<and> int k mod rowSize m = c0"
    proof
      assume "k = k0" with dm show "int k div rowSize m = y0 \<and> int k mod rowSize m = c0" by simp
    next
      assume a: "int k div rowSize m = y0 \<and> int k mod rowSize m = c0"
      have "int k = (int k div rowSize m) * rowSize m + int k mod rowSize m" by simp
      with a have "int k = y0 * rowSize m + c0" by simp
      with ik show "k = k0" by simp
    qed
    with words_nth [OF wf z k] show ?thesis by (simp del: push_bit_of_1)
  qed
  have nk0: "bits m ! k0 = push_bit j0 1" using n [OF k0] by (simp del: push_bit_of_1)
  have up: "scanUp (push_bit j0 1) 0 = Some (int j0)" by (rule scanUp_bit [OF j0]) simp_all
  have dn: "scanDown (push_bit j0 1) 31 = Some (int j0)" by (rule scanDown_bit [OF j0]) (use j0 in simp_all)
  have "skipZerosUp (bits m) 0 = k0"
    by (rule skipZerosUp_first) (use k0 n nz in \<open>simp_all del: push_bit_of_1\<close>)
  then show "getTopLeftOnBit m = Some (Some [32 * c0 + int j0, y0])"
    using k0 nk0 up dm by (simp add: getTopLeftOnBit_def Let_def mult.commute del: push_bit_of_1)
  have "skipZerosDown (bits m) (int (length (bits m)) - 1) = int k0"
    by (rule skipZerosDown_first) (use k0 n nz in \<open>simp_all del: push_bit_of_1\<close>)
  then show "getBottomRightOnBit m = Some (Some [32 * c0 + int j0, y0])"
    using k0 nk0 dn dm
    by (simp add: getBottomRightOnBit_def Let_def wordAt_def toInt32_def mult.commute del: push_bit_of_1)
qed

text \<open>
  C6: for a matrix with no set bits, \<open>getEnclosingRectangle\<close>, \<open>getTopLeftOnBit\<close> and
  \<open>getBottomRightOnBit\<close> all return \<^verbatim>\<open>null\<close>; for a matrix whose only set bit is
  \<open>(x0, y0)\<close>, \<open>getEnclosingRectangle\<close> returns \<open>(x0, y0, 1, 1)\<close> and both corner queries
  return \<open>(x0, y0)\<close>. The matrix is one laid out by the constructor, with no bit set
  beyond its width.
\<close>

theorem bounding_box:
  assumes "wellFormed m" and "paddingClear m"
  shows "((\<forall>y \<in> {0..<height m}. \<forall>x \<in> {0..<width m}. \<not> get m x y) \<longrightarrow>
            getEnclosingRectangle m = Some None \<and>
            getTopLeftOnBit m = Some None \<and>
            getBottomRightOnBit m = Some None) \<and>
         (0 \<le> x0 \<and> x0 < width m \<and> 0 \<le> y0 \<and> y0 < height m \<and>
          (\<forall>y \<in> {0..<height m}. \<forall>x \<in> {0..<width m}. get m x y \<longleftrightarrow> x = x0 \<and> y = y0) \<longrightarrow>
            getEnclosingRectangle m = Some (Some [x0, y0, 1, 1]) \<and>
            getTopLeftOnBit m = Some (Some [x0, y0]) \<and>
            getBottomRightOnBit m = Some (Some [x0, y0]))"
proof (intro conjI impI)
  assume e: "\<forall>y \<in> {0..<height m}. \<forall>x \<in> {0..<width m}. \<not> get m x y"
  have z: "wordAt (bits m) (y * rowSize m + c) = Some 0"
    if "0 \<le> y" "y < height m" "0 \<le> c" "c < rowSize m" for y c
    using words_empty [OF assms e that] .
  show "getEnclosingRectangle m = Some None"
    by (rule getEnclosingRectangle_empty [OF assms(1) z])
  show "getTopLeftOnBit m = Some None" "getBottomRightOnBit m = Some None"
    by (rule corners_empty [OF assms(1) z]; assumption)+
next
  assume a: "0 \<le> x0 \<and> x0 < width m \<and> 0 \<le> y0 \<and> y0 < height m \<and>
          (\<forall>y \<in> {0..<height m}. \<forall>x \<in> {0..<width m}. get m x y \<longleftrightarrow> x = x0 \<and> y = y0)"
  then have x0: "0 \<le> x0" "x0 < width m" and y0: "0 \<le> y0" "y0 < height m"
    and e: "\<forall>y \<in> {0..<height m}. \<forall>x \<in> {0..<width m}. get m x y \<longleftrightarrow> x = x0 \<and> y = y0"
    by simp_all
  define c0 where "c0 = x0 div 32"
  define j0 where "j0 = nat (x0 mod 32)"
  have j0: "j0 < 32" by (simp add: j0_def)
  have x: "32 * c0 + int j0 = x0" by (simp add: c0_def j0_def)
  have c0: "0 \<le> c0" "c0 < rowSize m"
    using x0 wellFormed_rowSize(2) [OF assms(1)] by (simp_all add: c0_def)
  have xw: "32 * c0 + int j0 < width m" using x x0 by simp
  have z: "wordAt (bits m) (y * rowSize m + c) = Some (if y = y0 \<and> c = c0 then push_bit j0 1 else 0)"
    if "0 \<le> y" "y < height m" "0 \<le> c" "c < rowSize m" for y c
    using words_single [OF assms x0 y0 e that] by (simp only: c0_def j0_def)
  show "getEnclosingRectangle m = Some (Some [x0, y0, 1, 1])"
    using getEnclosingRectangle_single [OF assms(1) j0 c0 y0 xw z] by (simp only: x)
  show "getTopLeftOnBit m = Some (Some [x0, y0])"
    using corners_single(1) [OF assms(1) j0 c0 y0 z] by (simp only: x)
  show "getBottomRightOnBit m = Some (Some [x0, y0])"
    using corners_single(2) [OF assms(1) j0 c0 y0 z] by (simp only: x)
qed

lemma int_range_upto: "{a..<b::int} = set [a..b - 1]"
  by auto

theorem bounding_box_witness:
  "wellFormed \<lparr>width = 40, height = 3, rowSize = 2, bits = [0, 0, 0, 2, 0, 0]\<rparr> \<and> paddingClear \<lparr>width = 40, height = 3, rowSize = 2, bits = [0, 0, 0, 2, 0, 0]\<rparr> \<and>
   [(x, y). y \<leftarrow> [0..2], x \<leftarrow> [0..39], get \<lparr>width = 40, height = 3, rowSize = 2, bits = [0, 0, 0, 2, 0, 0]\<rparr> x y] = [(33, 1)] \<and>
   getEnclosingRectangle \<lparr>width = 40, height = 3, rowSize = 2, bits = [0, 0, 0, 2, 0, 0]\<rparr> = Some (Some [33, 1, 1, 1]) \<and>
   getTopLeftOnBit \<lparr>width = 40, height = 3, rowSize = 2, bits = [0, 0, 0, 2, 0, 0]\<rparr> = Some (Some [33, 1]) \<and>
   getBottomRightOnBit \<lparr>width = 40, height = 3, rowSize = 2, bits = [0, 0, 0, 2, 0, 0]\<rparr> = Some (Some [33, 1]) \<and>
   wellFormed \<lparr>width = 40, height = 3, rowSize = 2, bits = [0, 0, 0, 0, 0, 0]\<rparr> \<and> paddingClear \<lparr>width = 40, height = 3, rowSize = 2, bits = [0, 0, 0, 0, 0, 0]\<rparr> \<and>
   [(x, y). y \<leftarrow> [0..2], x \<leftarrow> [0..39], get \<lparr>width = 40, height = 3, rowSize = 2, bits = [0, 0, 0, 0, 0, 0]\<rparr> x y] = [] \<and>
   getEnclosingRectangle \<lparr>width = 40, height = 3, rowSize = 2, bits = [0, 0, 0, 0, 0, 0]\<rparr> = Some None \<and>
   getTopLeftOnBit \<lparr>width = 40, height = 3, rowSize = 2, bits = [0, 0, 0, 0, 0, 0]\<rparr> = Some None \<and>
   getBottomRightOnBit \<lparr>width = 40, height = 3, rowSize = 2, bits = [0, 0, 0, 0, 0, 0]\<rparr> = Some None"
proof -
  let ?m = "\<lparr>width = 40, height = 3, rowSize = 2, bits = [0, 0, 0, 2, 0, 0]\<rparr>"
  let ?e = "\<lparr>width = 40, height = 3, rowSize = 2, bits = [0, 0, 0, 0, 0, 0]\<rparr>"
  have wf: "wellFormed ?m" "wellFormed ?e" by (simp_all add: wellFormed_def)
  have pc: "paddingClear ?m" "paddingClear ?e"
    unfolding paddingClear_def int_range_upto by code_simp+
  have l1: "[(x, y). y \<leftarrow> [0..2], x \<leftarrow> [0..39], get ?m x y] = [(33, 1)]" by code_simp
  have l2: "[(x, y). y \<leftarrow> [0..2], x \<leftarrow> [0..39], get ?e x y] = []" by code_simp
  have one: "\<forall>y \<in> {0..<3}. \<forall>x \<in> {0..<40}. get ?m x y \<longleftrightarrow> x = 33 \<and> y = 1"
    unfolding int_range_upto by code_simp
  have none: "\<forall>y \<in> {0..<3}. \<forall>x \<in> {0..<40}. \<not> get ?e x y"
    unfolding int_range_upto by code_simp
  have sel: "height ?m = 3" "width ?m = 40" "height ?e = 3" "width ?e = 40" by simp_all
  have ante: "(0::int) \<le> 33 \<and> 33 < width ?m \<and> (0::int) \<le> 1 \<and> 1 < height ?m \<and>
      (\<forall>y \<in> {0..<height ?m}. \<forall>x \<in> {0..<width ?m}. get ?m x y \<longleftrightarrow> x = 33 \<and> y = 1)"
    unfolding sel by (intro conjI one) simp_all
  have none': "\<forall>y \<in> {0..<height ?e}. \<forall>x \<in> {0..<width ?e}. \<not> get ?e x y"
    unfolding sel by (rule none)
  have a: "getEnclosingRectangle ?m = Some (Some [33, 1, 1, 1]) \<and>
           getTopLeftOnBit ?m = Some (Some [33, 1]) \<and> getBottomRightOnBit ?m = Some (Some [33, 1])"
    by (rule bounding_box [OF wf(1) pc(1), of 33 1, THEN conjunct2, THEN mp, OF ante])
  have b: "getEnclosingRectangle ?e = Some None \<and> getTopLeftOnBit ?e = Some None \<and>
           getBottomRightOnBit ?e = Some None"
    by (rule bounding_box [OF wf(2) pc(2), of 0 0, THEN conjunct1, THEN mp, OF none'])
  from a have a': "getEnclosingRectangle ?m = Some (Some [33, 1, 1, 1])"
    "getTopLeftOnBit ?m = Some (Some [33, 1])" "getBottomRightOnBit ?m = Some (Some [33, 1])"
    by simp_all
  from b have b': "getEnclosingRectangle ?e = Some None" "getTopLeftOnBit ?e = Some None"
    "getBottomRightOnBit ?e = Some None"
    by simp_all
  show ?thesis by (intro conjI wf pc l1 l2 a' b')
qed

subsection \<open>Text form\<close>

lemma startsWith_prefix: "startsWith rest token \<longleftrightarrow> prefix token rest"
  by (auto simp: startsWith_def prefix_def) (metis append_eq_conv_conj)

lemma parseLoop_Nil: "parseLoop s u [] bs rsp rl nr = Some (Inr (bs, rsp, rl, nr))"
  by (subst parseLoop.simps) simp

lemma parseLoop_break:
  assumes "lineBreak c"
  shows "parseLoop s u (c # rest) bs rsp rl nr =
           (if int (length bs) > rsp then
              (if rl = -1 then parseLoop s u rest bs (int (length bs)) (int (length bs) - rsp) (nr + 1)
               else if int (length bs) - rsp \<noteq> rl then Some (Inl IllegalArgumentException)
               else parseLoop s u rest bs (int (length bs)) rl (nr + 1))
            else parseLoop s u rest bs rsp rl nr)"
  using assms by (subst parseLoop.simps) (simp add: lineBreak_def)

lemma parseLoop_unrecognised:
  assumes "unrecognised s u rest"
  shows "parseLoop s u rest bs rsp rl nr = Some (Inl IllegalArgumentException)"
  using assms by (subst parseLoop.simps) (simp add: unrecognised_def lineBreak_def)

lemma parseLoop_set:
  assumes "tokensOk s u"
  shows "parseLoop s u (s @ rest) bs rsp rl nr = parseLoop s u rest (bs @ [True]) rsp rl nr"
proof -
  from assms have s: "s \<noteq> []" "\<not> lineBreak (hd s)" by (simp_all add: tokensOk_def)
  then have h: "hd (s @ rest) = hd s" "s @ rest \<noteq> []" by simp_all
  have sw: "startsWith (s @ rest) s" by (simp add: startsWith_def)
  show ?thesis
    using s h sw by (subst parseLoop.simps) (simp add: lineBreak_def)
qed

lemma parseLoop_unset:
  assumes "tokensOk s u"
  shows "parseLoop s u (u @ rest) bs rsp rl nr = parseLoop s u rest (bs @ [False]) rsp rl nr"
proof -
  from assms have u: "u \<noteq> []" "\<not> lineBreak (hd u)" and np: "\<not> prefix s u" "\<not> prefix u s"
    by (simp_all add: tokensOk_def)
  then have h: "hd (u @ rest) = hd u" "u @ rest \<noteq> []" by simp_all
  have sw: "startsWith (u @ rest) u" by (simp add: startsWith_def)
  have ns: "\<not> startsWith (u @ rest) s"
  proof
    assume "startsWith (u @ rest) s"
    then have "prefix s (u @ rest)" by (simp add: startsWith_prefix)
    moreover have "prefix u (u @ rest)" by simp
    ultimately have "prefix s u \<or> prefix u s" by (rule prefix_same_cases)
    with np show False by simp
  qed
  show ?thesis
    using u h sw ns by (subst parseLoop.simps) (simp add: lineBreak_def)
qed

lemma parseLoop_row:
  assumes "tokensOk s u"
  shows "parseLoop s u (renderRow s u row @ rest) bs rsp rl nr = parseLoop s u rest (bs @ row) rsp rl nr"
proof (induction row arbitrary: bs)
  case Nil
  then show ?case by (simp add: renderRow_def)
next
  case (Cons b row)
  have r: "renderRow s u (b # row) @ rest = (if b then s else u) @ (renderRow s u row @ rest)"
    by (simp add: renderRow_def)
  show ?case
    unfolding r using Cons.IH [of "bs @ [b]"]
    by (cases b) (simp_all add: parseLoop_set [OF assms] parseLoop_unset [OF assms])
qed

lemma lineBreak_nl: "lineBreak (CHR 0x0A)"
  by (simp add: lineBreak_def)

lemma parseLoop_rows:
  assumes "tokensOk s u"
  shows "parseLoop s u (renderRows s u rows @ rest) bs (int (length bs)) rl nr =
           (case scanRows rl rows of
              None \<Rightarrow> Some (Inl IllegalArgumentException)
            | Some rl' \<Rightarrow>
                parseLoop s u rest (bs @ concat rows) (int (length (bs @ concat rows))) rl'
                  (nr + int (length (filter (\<lambda>row. row \<noteq> []) rows))))"
proof (induction rows arbitrary: bs rl nr)
  case Nil
  then show ?case by (simp add: renderRows_def)
next
  case (Cons row rows)
  have r: "renderRows s u (row # rows) @ rest =
           renderRow s u row @ (CHR 0x0A # (renderRows s u rows @ rest))"
    by (simp add: renderRows_def)
  have step: "parseLoop s u (renderRows s u (row # rows) @ rest) bs (int (length bs)) rl nr =
      (if row \<noteq> [] then
         (if rl = -1 then parseLoop s u (renderRows s u rows @ rest) (bs @ row) (int (length (bs @ row)))
                            (int (length row)) (nr + 1)
          else if int (length row) \<noteq> rl then Some (Inl IllegalArgumentException)
          else parseLoop s u (renderRows s u rows @ rest) (bs @ row) (int (length (bs @ row))) rl (nr + 1))
       else parseLoop s u (renderRows s u rows @ rest) (bs @ row) (int (length (bs @ row))) rl nr)"
    unfolding r parseLoop_row [OF assms] parseLoop_break [OF lineBreak_nl]
    by simp
  show ?case
  proof (cases "row = []")
    case True
    with step Cons.IH [of bs rl nr] show ?thesis by (simp split: option.split)
  next
    case False
    show ?thesis
    proof (cases "rl = -1")
      case True
      with step False Cons.IH [of "bs @ row" "int (length row)" "nr + 1"] show ?thesis
        by (simp add: algebra_simps split: option.split)
    next
      case nm: False
      show ?thesis
      proof (cases "int (length row) = rl")
        case True
        with step False nm Cons.IH [of "bs @ row" rl "nr + 1"] show ?thesis
          by (simp add: algebra_simps split: option.split)
      next
        case False
        with step \<open>row \<noteq> []\<close> nm show ?thesis by simp
      qed
    qed
  qed
qed

lemma set_m_fields [simp]:
  "width (set_m m x y) = width m" "height (set_m m x y) = height m"
  "rowSize (set_m m x y) = rowSize m" "length (bits (set_m m x y)) = length (bits m)"
  by (simp_all add: set_m_def Let_def storeAt_def)

lemma wellFormed_set_m: "wellFormed m \<Longrightarrow> wellFormed (set_m m x y)"
  by (simp add: wellFormed_def)

lemma col_range:
  assumes "0 \<le> x" "x < 32 * r"
  shows "0 \<le> x div 32" "x div 32 < (r::int)"
  using assms by simp_all

lemma offset_inj:
  assumes "0 \<le> c" "c < (r::int)" "0 \<le> c'" "c' < r"
  shows "y * r + c = y' * r + c' \<longleftrightarrow> y = y' \<and> c = c'"
proof
  assume e: "y * r + c = y' * r + c'"
  from offset_div_mod [OF assms(1,2), of y] offset_div_mod [OF assms(3,4), of y'] e
  show "y = y' \<and> c = c'" by metis
qed simp

lemma bit_or_single:
  assumes "j < 32"
  shows "bit ((w::int32) OR (shl 1 (int j) AND 0xFFFFFFFF)) j' \<longleftrightarrow> bit w j' \<or> j' = j"
proof -
  have "shl (1::int32) (int j) AND 0xFFFFFFFF = push_bit j 1"
    using assms by (simp add: shl_def all_ones)
  then show ?thesis
    using assms by (auto simp add: bit_or_iff bit_exp_iff possible_bit_word)
qed

lemma get_set_m:
  assumes wf: "wellFormed m"
    and x: "0 \<le> x" "x < 32 * rowSize m" and y: "0 \<le> y" "y < height m"
    and x': "0 \<le> x'" "x' < 32 * rowSize m" and y': "0 \<le> y'" "y' < height m"
  shows "get (set_m m x y) x' y' \<longleftrightarrow> (x' = x \<and> y' = y) \<or> get m x' y'"
proof -
  define c where "c = x div 32"
  define c' where "c' = x' div 32"
  define j where "j = nat (x mod 32)"
  define j' where "j' = nat (x' mod 32)"
  have c: "0 \<le> c" "c < rowSize m" using col_range [OF x] by (simp_all add: c_def)
  have c': "0 \<le> c'" "c' < rowSize m" using col_range [OF x'] by (simp_all add: c'_def)
  have j: "j < 32" "int j = x mod 32" by (simp_all add: j_def)
  have j': "j' < 32" by (simp add: j'_def)
  define o1 where "o1 = y * rowSize m + c"
  define o2 where "o2 = y' * rowSize m + c'"
  from wf have len: "int (length (bits m)) = rowSize m * height m" by (simp add: wellFormed_def)
  have r1: "0 \<le> o1" "o1 < int (length (bits m))"
    using offset_range [OF y c] len by (simp_all add: o1_def)
  have r2: "0 \<le> o2" "o2 < int (length (bits m))"
    using offset_range [OF y' c'] len by (simp_all add: o2_def)
  have same: "o2 = o1 \<longleftrightarrow> y' = y \<and> c' = c"
    unfolding o1_def o2_def by (rule offset_inj [OF c' c])
  have xeq: "x' = x \<longleftrightarrow> c' = c \<and> j' = j"
  proof -
    have "x' = 32 * c' + int j'" "x = 32 * c + int j" by (simp_all add: c_def c'_def j_def j'_def)
    then show ?thesis using j j' by auto
  qed
  have g: "get m x' y' = bit (bits m ! nat o2) j'"
    using get_word [of m y' x' "bits m ! nat o2"] r2
    by (simp add: wordAt_def o2_def c'_def j'_def)
  let ?w = "toInt32 (wordAt (bits m) o1) OR (shl 1 (x AND 0x1f) AND 0xFFFFFFFF)"
  have w: "?w = bits m ! nat o1 OR (shl 1 (int j) AND 0xFFFFFFFF)"
    using r1 by (simp add: wordAt_def toInt32_def and31 j)
  have b': "bits (set_m m x y) = (bits m)[nat o1 := ?w]"
    using r1 by (simp add: set_m_def Let_def storeAt_def o1_def c_def)
  have "wordAt (bits (set_m m x y)) (y' * rowSize (set_m m x y) + x' div 32) =
        Some (bits (set_m m x y) ! nat o2)"
    using r2 by (simp add: wordAt_def o2_def c'_def)
  from get_word [OF this]
  have "get (set_m m x y) x' y' = bit ((bits m)[nat o1 := ?w] ! nat o2) j'"
    by (simp add: b' j'_def)
  also have "\<dots> \<longleftrightarrow> (o2 = o1 \<and> j' = j) \<or> bit (bits m ! nat o2) j'"
  proof (cases "o2 = o1")
    case True
    with r1 show ?thesis by (simp add: w bit_or_single [OF j(1)]) auto
  next
    case False
    with r1 r2 have "nat o1 \<noteq> nat o2" by simp
    with False show ?thesis by simp
  qed
  finally show ?thesis using same xeq g by auto
qed

lemma matrix_eqI:
  assumes wf1: "wellFormed m1" and wf2: "wellFormed m2"
    and d: "width m1 = width m2" "height m1 = height m2"
    and g: "\<And>x y. 0 \<le> x \<Longrightarrow> x < 32 * rowSize m1 \<Longrightarrow> 0 \<le> y \<Longrightarrow> y < height m1 \<Longrightarrow>
              get m1 x y = get m2 x y"
  shows "m1 = (m2 :: BitMatrix)"
proof -
  from wf1 wf2 d have rs: "rowSize m1 = rowSize m2" by (simp add: wellFormed_def)
  from wf1 wf2 d rs have len: "length (bits m1) = length (bits m2)"
    by (simp add: wellFormed_def) (metis nat_int)
  from wellFormed_rowSize(1) [OF wf1] have r: "0 < rowSize m1" by simp
  from wf1 have l1: "int (length (bits m1)) = rowSize m1 * height m1" by (simp add: wellFormed_def)
  have "bits m1 ! k = bits m2 ! k" if k: "k < length (bits m1)" for k
  proof (rule bit_eqI)
    fix j
    assume "possible_bit TYPE(int32) j"
    then have j: "j < 32" by (simp add: possible_bit_word)
    define y where "y = int k div rowSize m1"
    define c where "c = int k mod rowSize m1"
    have kk: "y * rowSize m1 + c = int k" by (simp add: y_def c_def)
    have c: "0 \<le> c" "c < rowSize m1" using r by (simp_all add: c_def)
    have y0: "0 \<le> y" using r by (simp add: y_def pos_imp_zdiv_nonneg_iff)
    have y1: "y < height m1"
    proof (rule ccontr)
      assume "\<not> y < height m1"
      then have "height m1 \<le> y" by simp
      with r have "height m1 * rowSize m1 \<le> y * rowSize m1" by (intro mult_right_mono) simp_all
      also have "\<dots> \<le> int k" using kk c(1) by linarith
      finally have "rowSize m1 * height m1 \<le> int k" by (simp only: mult.commute)
      with l1 k show False by linarith
    qed
    have a: "get m1 (32 * c + int j) y = bit (bits m1 ! nat (y * rowSize m1 + c)) j"
      by (rule get_bit [OF wf1 y0 y1 c j])
    have b: "get m2 (32 * c + int j) y = bit (bits m2 ! nat (y * rowSize m2 + c)) j"
      by (rule get_bit [OF wf2]) (use y0 y1 c j d rs in simp_all)
    have "get m1 (32 * c + int j) y = get m2 (32 * c + int j) y"
      by (rule g) (use c j y0 y1 in simp_all)
    with a b show "bit (bits m1 ! k) j = bit (bits m2 ! k) j"
      by (simp add: kk rs [symmetric])
  qed
  with len have "bits m1 = bits m2" by (intro nth_equalityI) simp_all
  with d rs show ?thesis by simp
qed

lemma concat_nth_uniform:
  assumes "\<And>r. r \<in> set rows \<Longrightarrow> length r = w" "i < length rows * w"
  shows "concat rows ! i = rows ! (i div w) ! (i mod w)"
  using assms
proof (induction rows arbitrary: i)
  case Nil
  then show ?case by simp
next
  case (Cons r rows)
  have lr: "length r = w" using Cons.prems(1) by simp
  from Cons.prems(2) have w: "0 < w" by (cases w) auto
  show ?case
  proof (cases "i < w")
    case True
    then show ?thesis by (simp add: nth_append lr)
  next
    case False
    then have i: "w \<le> i" by simp
    then have dm: "i div w = Suc ((i - w) div w)" "i mod w = (i - w) mod w"
      using w by (simp_all add: le_div_geq le_mod_geq)
    have "concat rows ! (i - w) = rows ! ((i - w) div w) ! ((i - w) mod w)"
      using Cons.prems i by (intro Cons.IH) auto
    then show ?thesis using False by (simp add: nth_append lr dm)
  qed
qed

lemma length_concat_uniform:
  assumes "\<And>r. r \<in> set rows \<Longrightarrow> length r = w"
  shows "length (concat rows) = length rows * w"
  using assms by (induction rows) auto

lemma rowsOf_props:
  assumes "1 \<le> width m" "1 \<le> height m"
  shows "length (rowsOf m) = nat (height m)"
    "\<And>r. r \<in> set (rowsOf m) \<Longrightarrow> length r = nat (width m)"
    "\<And>x y. x < nat (width m) \<Longrightarrow> y < nat (height m) \<Longrightarrow> rowsOf m ! y ! x = get m (int x) (int y)"
  using assms by (auto simp: rowsOf_def)

lemma concat_rowsOf:
  assumes "1 \<le> width m" "1 \<le> height m"
  shows "length (concat (rowsOf m)) = nat (height m) * nat (width m)"
    "\<And>i. i < nat (height m) * nat (width m) \<Longrightarrow>
       concat (rowsOf m) ! i = get m (int i mod width m) (int i div width m)"
proof -
  note p = rowsOf_props [OF assms]
  show "length (concat (rowsOf m)) = nat (height m) * nat (width m)"
    using length_concat_uniform [of "rowsOf m" "nat (width m)"] p by simp
  fix i assume i: "i < nat (height m) * nat (width m)"
  have w: "0 < nat (width m)" using assms by simp
  have "concat (rowsOf m) ! i = rowsOf m ! (i div nat (width m)) ! (i mod nat (width m))"
    by (rule concat_nth_uniform) (use p i in simp_all)
  also have "\<dots> = get m (int (i mod nat (width m))) (int (i div nat (width m)))"
  proof (rule p(3))
    show "i mod nat (width m) < nat (width m)" using w by simp
    show "i div nat (width m) < nat (height m)"
      using i w by (simp add: less_mult_imp_div_less)
  qed
  also have "int (i mod nat (width m)) = int i mod width m"
    using assms by (simp add: zmod_int)
  also have "int (i div nat (width m)) = int i div width m"
    using assms by (simp add: zdiv_int)
  finally show "concat (rowsOf m) ! i = get m (int i mod width m) (int i div width m)" .
qed

lemma scanRows_uniform:
  assumes "\<And>r. r \<in> set rows \<Longrightarrow> length r = w" "0 < w" "rl = -1 \<or> rl = int w"
  shows "scanRows rl rows = Some (if rows = [] then rl else int w)"
  using assms by (induction rows arbitrary: rl) auto

lemma filter_nonempty_uniform:
  assumes "\<And>r. r \<in> set rows \<Longrightarrow> length r = w" "0 < w"
  shows "filter (\<lambda>row. row \<noteq> []) rows = rows"
  using assms by (induction rows) auto

lemma setParsedBits_spec:
  assumes wfM: "wellFormed M"
    and len: "length bs = nat (height M) * nat (width M)"
    and bs: "\<And>k. k < length bs \<Longrightarrow> bs ! k = get M (int k mod width M) (int k div width M)"
    and wf: "wellFormed m" and d: "width m = width M" "height m = height M"
    and inv: "\<And>x y. 0 \<le> x \<Longrightarrow> x < 32 * rowSize M \<Longrightarrow> 0 \<le> y \<Longrightarrow> y < height M \<Longrightarrow>
               get m x y \<longleftrightarrow> x < width M \<and> y * width M + x < int i \<and> get M x y"
    and i: "i \<le> length bs"
  shows "wellFormed (setParsedBits m bs (width M) i) \<and>
         width (setParsedBits m bs (width M) i) = width M \<and>
         height (setParsedBits m bs (width M) i) = height M \<and>
         (\<forall>x y. 0 \<le> x \<longrightarrow> x < 32 * rowSize M \<longrightarrow> 0 \<le> y \<longrightarrow> y < height M \<longrightarrow>
            (get (setParsedBits m bs (width M) i) x y \<longleftrightarrow> x < width M \<and> get M x y))"
  using wf d inv i
proof (induction "length bs - i" arbitrary: i m)
  case 0
  then have i: "i = length bs" by simp
  have e: "setParsedBits m bs (width M) i = m"
    using i by (subst setParsedBits.simps) simp
  from wfM have W: "1 \<le> width M" "1 \<le> height M" by (simp_all add: wellFormed_def)
  have "y * width M + x < int i" if "0 \<le> x" "x < width M" "0 \<le> y" "y < height M" for x y
  proof -
    have "y * width M + x < width M * height M" by (rule offset_range(2) [OF that(3,4,1,2)])
    also have "\<dots> = int i" using W by (simp add: i len mult.commute)
    finally show ?thesis .
  qed
  with 0 show ?case unfolding e by auto
next
  case (Suc n)
  from wfM have W: "1 \<le> width M" "1 \<le> height M" by (simp_all add: wellFormed_def)
  from Suc.hyps(2) have lt: "i < length bs" by simp
  define xi where "xi = int i mod width M"
  define yi where "yi = int i div width M"
  have xi: "0 \<le> xi" "xi < width M" using W by (simp_all add: xi_def)
  have yi0: "0 \<le> yi" using W by (simp add: yi_def pos_imp_zdiv_nonneg_iff)
  have ii: "yi * width M + xi = int i" by (simp add: xi_def yi_def)
  have yi1: "yi < height M"
  proof (rule ccontr)
    assume "\<not> yi < height M"
    then have "height M \<le> yi" by simp
    with W have "height M * width M \<le> yi * width M" by (intro mult_right_mono) simp_all
    also have "\<dots> \<le> int i" using ii xi(1) by linarith
    finally have "int (nat (height M) * nat (width M)) \<le> int i" using W by simp
    with lt len show False by simp
  qed
  from wellFormed_rowSize(2) [OF wfM] xi have xr: "xi < 32 * rowSize M" by simp
  from Suc.prems(1,2,3) wfM have rs: "rowSize m = rowSize M" by (simp add: wellFormed_def)
  define m1 where "m1 = (if bs ! i then set_m m xi yi else m)"
  have step: "setParsedBits m bs (width M) i = setParsedBits m1 bs (width M) (i + 1)"
    using lt by (subst setParsedBits.simps) (simp add: m1_def xi_def yi_def)
  have wf1: "wellFormed m1" using Suc.prems(1) by (simp add: m1_def wellFormed_set_m)
  have d1: "width m1 = width M" "height m1 = height M" using Suc.prems(2,3) by (simp_all add: m1_def)
  have inv1: "get m1 x y \<longleftrightarrow> x < width M \<and> y * width M + x < int (i + 1) \<and> get M x y"
    if r: "0 \<le> x" "x < 32 * rowSize M" "0 \<le> y" "y < height M" for x y
  proof -
    have g1: "get m1 x y \<longleftrightarrow> (bs ! i \<and> x = xi \<and> y = yi) \<or> get m x y"
    proof (cases "bs ! i")
      case True
      have "get (set_m m xi yi) x y \<longleftrightarrow> (x = xi \<and> y = yi) \<or> get m x y"
        by (rule get_set_m [OF Suc.prems(1)]) (use xi xr yi0 yi1 r rs Suc.prems(3) in simp_all)
      with True show ?thesis by (simp add: m1_def)
    next
      case False
      then show ?thesis by (simp add: m1_def)
    qed
    have bi: "bs ! i = get M xi yi" using bs [OF lt] by (simp add: xi_def yi_def)
    show ?thesis
    proof (cases "x < width M")
      case True
      have "y * width M + x = int i \<longleftrightarrow> y = yi \<and> x = xi"
        unfolding ii [symmetric] by (rule offset_inj [OF r(1) True xi])
      then have "y * width M + x < int (i + 1) \<longleftrightarrow> y * width M + x < int i \<or> (x = xi \<and> y = yi)"
        by auto
      with g1 bi Suc.prems(4) [OF r] True show ?thesis by auto
    next
      case False
      with xi have "x \<noteq> xi" by simp
      with g1 Suc.prems(4) [OF r] False show ?thesis by simp
    qed
  qed
  have n: "n = length bs - (i + 1)" using Suc.hyps(2) by simp
  have i1: "i + 1 \<le> length bs" using lt by simp
  from Suc.hyps(1) [OF n wf1 d1 inv1 i1] show ?case unfolding step by simp
qed

lemma newBitMatrix_props:
  assumes "1 \<le> w" "1 \<le> h"
  shows "\<exists>z. newBitMatrix w h = Inr z \<and> wellFormed z \<and> width z = w \<and> height z = h \<and>
           (\<forall>x y. \<not> get z x y)"
proof -
  define rs where "rs = (w + 31) div 32"
  define z where "z = \<lparr>width = w, height = h, rowSize = rs, bits = replicate (nat (rs * h)) 0\<rparr>"
  have "0 \<le> rs" using assms by (simp add: rs_def pos_imp_zdiv_nonneg_iff)
  with assms have "0 \<le> rs * h" by simp
  then have wf: "wellFormed z" using assms by (simp add: wellFormed_def z_def rs_def)
  have "\<not> get z x y" for x y
    by (auto simp add: get_def Let_def wordAt_def toInt32_def ushr_def z_def)
  moreover have "newBitMatrix w h = Inr z" using assms by (simp add: newBitMatrix_def z_def rs_def Let_def)
  ultimately show ?thesis using wf by (auto simp: z_def)
qed

lemma toString_render: "toString_m m s u = CHR 0x0A # renderRows s u (rowsOf m)"
  by (simp add: toString_m_def buildToString_def renderRows_def renderRow_def rowsOf_def comp_def)

lemma roundtrip:
  assumes wf: "wellFormed M" and pad: "paddingClear M" and tok: "tokensOk s u"
  shows "parseFromString (toString_m M s u) s u = Some (Inr M)"
proof -
  from wf have W: "1 \<le> width M" "1 \<le> height M" by (simp_all add: wellFormed_def)
  define rows where "rows = rowsOf M"
  define bs where "bs = concat rows"
  note rp = rowsOf_props [OF W, folded rows_def]
  note cp = concat_rowsOf [OF W, folded rows_def, folded bs_def]
  have ne: "rows \<noteq> []" using rp(1) W by auto
  have w0: "0 < nat (width M)" using W by simp
  have sc: "scanRows (- 1) rows = Some (width M)"
    using scanRows_uniform [of rows "nat (width M)" "- 1"] rp(2) w0 ne W by simp
  have fl: "filter (\<lambda>row. row \<noteq> []) rows = rows"
    by (rule filter_nonempty_uniform [OF rp(2) w0])
  have "parseLoop s u (toString_m M s u) [] 0 (- 1) 0 =
        parseLoop s u (renderRows s u rows @ []) [] (int (length ([]::bool list))) (- 1) 0"
    unfolding toString_render rows_def [symmetric]
    by (simp add: parseLoop_break [OF lineBreak_nl])
  also have "\<dots> = Some (Inr (bs, int (length bs), width M, height M))"
    unfolding parseLoop_rows [OF tok] sc
    using W by (simp add: parseLoop_Nil fl rp(1) bs_def)
  finally have loop: "parseLoop s u (toString_m M s u) [] 0 (- 1) 0 =
      Some (Inr (bs, int (length bs), width M, height M))" .
  from newBitMatrix_props [OF W] obtain z where z: "newBitMatrix (width M) (height M) = Inr z"
    "wellFormed z" "width z = width M" "height z = height M" "\<And>x y. \<not> get z x y"
    by blast
  have res: "parseFromString (toString_m M s u) s u = Some (Inr (setParsedBits z bs (width M) 0))"
    by (simp add: parseFromString_def loop z(1))
  have "wellFormed (setParsedBits z bs (width M) 0) \<and>
         width (setParsedBits z bs (width M) 0) = width M \<and>
         height (setParsedBits z bs (width M) 0) = height M \<and>
         (\<forall>x y. 0 \<le> x \<longrightarrow> x < 32 * rowSize M \<longrightarrow> 0 \<le> y \<longrightarrow> y < height M \<longrightarrow>
            (get (setParsedBits z bs (width M) 0) x y \<longleftrightarrow> x < width M \<and> get M x y))"
  proof (rule setParsedBits_spec [OF wf cp(1) _ z(2,3,4)])
    show "bs ! k = get M (int k mod width M) (int k div width M)" if "k < length bs" for k
      using cp(2) [of k] that cp(1) by simp
    show "get z x y \<longleftrightarrow> x < width M \<and> y * width M + x < int 0 \<and> get M x y"
      if "0 \<le> x" "0 \<le> y" for x y
    proof -
      from that W have "0 \<le> y * width M + x" by simp
      with z(5) show ?thesis by simp
    qed
  qed simp
  then have p: "wellFormed (setParsedBits z bs (width M) 0)"
    "width (setParsedBits z bs (width M) 0) = width M"
    "height (setParsedBits z bs (width M) 0) = height M"
    "\<And>x y. 0 \<le> x \<Longrightarrow> x < 32 * rowSize M \<Longrightarrow> 0 \<le> y \<Longrightarrow> y < height M \<Longrightarrow>
       get (setParsedBits z bs (width M) 0) x y \<longleftrightarrow> x < width M \<and> get M x y"
    by blast+
  from p(1,2) wf have rs: "rowSize (setParsedBits z bs (width M) 0) = rowSize M"
    by (simp add: wellFormed_def)
  have "setParsedBits z bs (width M) 0 = M"
  proof (rule matrix_eqI [OF p(1) wf p(2,3)])
    fix x y
    assume r: "0 \<le> x" "x < 32 * rowSize (setParsedBits z bs (width M) 0)" "0 \<le> y"
      "y < height (setParsedBits z bs (width M) 0)"
    then have r': "x < 32 * rowSize M" "y < height M" by (simp_all add: rs p(3))
    have "\<not> get M x y" if "\<not> x < width M"
      using pad that r(1,3) r' by (simp add: paddingClear_def)
    with p(4) [OF r(1) r'(1) r(3) r'(2)]
    show "get (setParsedBits z bs (width M) 0) x y = get M x y" by auto
  qed
  with res show ?thesis by simp
qed

lemma scanRows_Some:
  "scanRows rl rows = Some rl' \<Longrightarrow>
     (rl \<noteq> - 1 \<longrightarrow> rl' = rl) \<and> (\<forall>r \<in> set rows. r \<noteq> [] \<longrightarrow> int (length r) = rl')"
proof (induction rows arbitrary: rl)
  case Nil
  then show ?case by simp
next
  case (Cons row rows)
  show ?case
  proof (cases "row = []")
    case True
    with Cons.prems Cons.IH [of rl] show ?thesis by simp
  next
    case False
    show ?thesis
    proof (cases "rl = - 1")
      case True
      with False Cons.prems have "scanRows (int (length row)) rows = Some rl'" by simp
      from Cons.IH [OF this] True show ?thesis by auto
    next
      case nm: False
      with False Cons.prems have "int (length row) = rl" "scanRows rl rows = Some rl'"
        by (simp_all split: if_splits)
      with Cons.IH [of rl] nm show ?thesis by simp
    qed
  qed
qed

lemma parseLoop_row_end:
  assumes "tokensOk s u"
  shows "parseLoop s u (renderRow s u row) bs rsp rl nr = Some (Inr (bs @ row, rsp, rl, nr))"
  using parseLoop_row [OF assms, of row "[]" bs rsp rl nr] by (simp add: parseLoop_Nil)

lemma scanRows_mismatch:
  assumes "i < j" "j < length rows" "rows ! i \<noteq> []" "rows ! j \<noteq> []"
    "length (rows ! i) \<noteq> length (rows ! j)"
  shows "scanRows rl rows = None"
proof (cases "scanRows rl rows")
  case (Some rl')
  from scanRows_Some [OF Some] assms(1-4)
  have "int (length (rows ! i)) = rl'" "int (length (rows ! j)) = rl'"
    by (simp_all add: nth_mem)
  with assms(5) show ?thesis by simp
qed simp

lemma scanRows_snoc:
  "scanRows rl (rows @ [lastRow]) =
     (case scanRows rl rows of None \<Rightarrow> None | Some rl' \<Rightarrow> scanRows rl' [lastRow])"
  by (induction rows arbitrary: rl) (auto split: option.splits)

lemma parse_rows_mismatch:
  assumes tok: "tokensOk s u" and sc: "scanRows (- 1) (rows @ [lastRow]) = None"
  shows "parseFromString (renderRows s u rows @ renderRow s u lastRow) s u =
           Some (Inl IllegalArgumentException)"
proof (cases "scanRows (- 1) rows")
  case None
  have "parseLoop s u (renderRows s u rows @ renderRow s u lastRow) [] (int (length ([]::bool list))) (- 1) 0 =
        Some (Inl IllegalArgumentException)"
    unfolding parseLoop_rows [OF tok] None by simp
  then show ?thesis by (simp add: parseFromString_def)
next
  case (Some rl')
  with sc have l: "lastRow \<noteq> []" "rl' \<noteq> - 1" "int (length lastRow) \<noteq> rl'"
    by (auto simp: scanRows_snoc split: if_splits)
  have "parseLoop s u (renderRows s u rows @ (renderRow s u lastRow @ [])) [] (int (length ([]::bool list))) (- 1) 0 =
        Some (Inr (concat rows @ lastRow, int (length (concat rows)), rl',
                   int (length (filter (\<lambda>row. row \<noteq> []) rows))))"
    unfolding parseLoop_rows [OF tok] Some by (simp add: parseLoop_row_end [OF tok])
  then show ?thesis using l by (simp add: parseFromString_def)
qed

lemma parse_unrecognised:
  assumes tok: "tokensOk s u" and bad: "unrecognised s u rest"
  shows "parseFromString (renderRows s u rows @ renderRow s u row @ rest) s u =
           Some (Inl IllegalArgumentException)"
proof -
  have "parseLoop s u (renderRows s u rows @ (renderRow s u row @ rest)) [] (int (length ([]::bool list))) (- 1) 0 =
        Some (Inl IllegalArgumentException)"
    unfolding parseLoop_rows [OF tok]
    by (simp add: parseLoop_row [OF tok] parseLoop_unrecognised [OF bad] split: option.split)
  then show ?thesis by (simp add: parseFromString_def)
qed

text \<open>
  C7, as stated, asks for the round trip with arbitrary non-overlapping tokens. The parser
  ends a row at every \<^verbatim>\<open>'\n'\<close> and \<^verbatim>\<open>'\r'\<close> before it looks for a token, so a token that
  begins with a line break is never recognised: with the set token \<^verbatim>\<open>'\n'\<close> and the unset
  token \<^verbatim>\<open>'x'\<close> the 1 x 1 matrix with its bit set is written as three line breaks, which
  parse to no row at all, and the constructor throws.
\<close>

theorem newline_token_breaks_round_trip:
  "[CHR 0x0A] \<noteq> ''x'' \<and> \<not> prefix [CHR 0x0A] ''x'' \<and> \<not> prefix ''x'' [CHR 0x0A] \<and>
   set [CHR 0x0A] \<inter> set ''x'' = {} \<and>
   wellFormed \<lparr>width = 1, height = 1, rowSize = 1, bits = [1]\<rparr> \<and>
   toString_m \<lparr>width = 1, height = 1, rowSize = 1, bits = [1]\<rparr> [CHR 0x0A] ''x''
     = [CHR 0x0A, CHR 0x0A, CHR 0x0A] \<and>
   parseFromString (toString_m \<lparr>width = 1, height = 1, rowSize = 1, bits = [1]\<rparr> [CHR 0x0A] ''x'')
     [CHR 0x0A] ''x'' = Some (Inl IllegalArgumentException)"
  by code_simp

text \<open>
  C7, amended: let the two tokens be non-empty, neither a prefix of the other and neither
  beginning with \<^verbatim>\<open>'\n'\<close> or \<^verbatim>\<open>'\r'\<close>. Then for every matrix \<open>m\<close> in the constructor's
  layout with no bit set beyond its width, parsing \<open>toString m\<close> yields \<open>m\<close>; and
  \<open>parseFromString\<close> throws \<open>IllegalArgumentException\<close> on a text whose rows (the last one
  with or without a final line break) include two non-empty rows of different lengths, and
  on a text that, after any rows, continues with something that is neither a line break
  nor one of the tokens.
\<close>

theorem text_round_trip:
  assumes "tokensOk setString unsetString"
  shows "(wellFormed m \<and> paddingClear m \<longrightarrow>
            parseFromString (toString_m m setString unsetString) setString unsetString = Some (Inr m)) \<and>
         (i < j \<and> j < length (rows @ [lastRow]) \<and>
          (rows @ [lastRow]) ! i \<noteq> [] \<and> (rows @ [lastRow]) ! j \<noteq> [] \<and>
          length ((rows @ [lastRow]) ! i) \<noteq> length ((rows @ [lastRow]) ! j) \<longrightarrow>
            parseFromString (renderRows setString unsetString rows @
                             renderRow setString unsetString lastRow) setString unsetString
              = Some (Inl IllegalArgumentException)) \<and>
         (unrecognised setString unsetString rest \<longrightarrow>
            parseFromString (renderRows setString unsetString rows @
                             renderRow setString unsetString row @ rest) setString unsetString
              = Some (Inl IllegalArgumentException))"
proof (intro conjI impI)
  assume "wellFormed m \<and> paddingClear m"
  then show "parseFromString (toString_m m setString unsetString) setString unsetString = Some (Inr m)"
    using roundtrip [OF _ _ assms] by simp
next
  assume a: "i < j \<and> j < length (rows @ [lastRow]) \<and>
          (rows @ [lastRow]) ! i \<noteq> [] \<and> (rows @ [lastRow]) ! j \<noteq> [] \<and>
          length ((rows @ [lastRow]) ! i) \<noteq> length ((rows @ [lastRow]) ! j)"
  have "scanRows (- 1) (rows @ [lastRow]) = None"
    by (rule scanRows_mismatch [of i j]) (use a in simp_all)
  then show "parseFromString (renderRows setString unsetString rows @
                             renderRow setString unsetString lastRow) setString unsetString
              = Some (Inl IllegalArgumentException)"
    by (rule parse_rows_mismatch [OF assms])
next
  assume "unrecognised setString unsetString rest"
  then show "parseFromString (renderRows setString unsetString rows @
                             renderRow setString unsetString row @ rest) setString unsetString
              = Some (Inl IllegalArgumentException)"
    by (rule parse_unrecognised [OF assms])
qed

theorem text_round_trip_witness:
  "tokensOk ''x'' ''. '' \<and>
   wellFormed \<lparr>width = 3, height = 2, rowSize = 1, bits = [5, 2]\<rparr> \<and>
   paddingClear \<lparr>width = 3, height = 2, rowSize = 1, bits = [5, 2]\<rparr> \<and>
   parseFromString (toString_m \<lparr>width = 3, height = 2, rowSize = 1, bits = [5, 2]\<rparr> ''x'' ''. '')
     ''x'' ''. '' = Some (Inr \<lparr>width = 3, height = 2, rowSize = 1, bits = [5, 2]\<rparr>) \<and>
   parseFromString (renderRows ''x'' ''. '' [[True, False]] @ renderRow ''x'' ''. '' [True])
     ''x'' ''. '' = Some (Inl IllegalArgumentException) \<and>
   unrecognised ''x'' ''. '' ''.x'' \<and>
   parseFromString (renderRows ''x'' ''. '' [[True, False]] @ renderRow ''x'' ''. '' [False] @ ''.x'')
     ''x'' ''. '' = Some (Inl IllegalArgumentException)"
proof -
  let ?m = "\<lparr>width = 3, height = 2, rowSize = 1, bits = [5, 2]\<rparr>"
  have tok: "tokensOk ''x'' ''. ''" by (simp add: tokensOk_def lineBreak_def)
  have wf: "wellFormed ?m" by (simp add: wellFormed_def)
  have pc: "paddingClear ?m" unfolding paddingClear_def int_range_upto by code_simp
  have bad: "unrecognised ''x'' ''. '' ''.x''"
    by (simp add: unrecognised_def lineBreak_def startsWith_def)
  have mis: "(0::nat) < 1 \<and> 1 < length ([[True, False]] @ [[True]]) \<and>
          ([[True, False]] @ [[True]]) ! 0 \<noteq> [] \<and> ([[True, False]] @ [[True]]) ! 1 \<noteq> [] \<and>
          length (([[True, False]] @ [[True]]) ! 0) \<noteq> length (([[True, False]] @ [[True]]) ! 1)"
    by simp
  note t = text_round_trip [OF tok, where m = ?m and i = 0 and j = 1 and rows = "[[True, False]]"
      and lastRow = "[True]" and rest = "''.x''" and row = "[False]"]
  from t [THEN conjunct1] wf pc
  have a: "parseFromString (toString_m ?m ''x'' ''. '') ''x'' ''. '' = Some (Inr ?m)" by blast
  from t [THEN conjunct2, THEN conjunct1, THEN mp, OF mis]
  have b: "parseFromString (renderRows ''x'' ''. '' [[True, False]] @ renderRow ''x'' ''. '' [True])
     ''x'' ''. '' = Some (Inl IllegalArgumentException)" .
  from t [THEN conjunct2, THEN conjunct2, THEN mp, OF bad]
  have c: "parseFromString (renderRows ''x'' ''. '' [[True, False]] @ renderRow ''x'' ''. '' [False] @ ''.x'')
     ''x'' ''. '' = Some (Inl IllegalArgumentException)" .
  show ?thesis by (intro conjI tok wf pc a b bad c)
qed

subsection \<open>Rows and rotation\<close>

text \<open>The \<open>BitArray\<close> operations, bit by bit.\<close>

lemma get_a_word:
  assumes "wordAt (bits_a a) (i div 32) = Some v"
  shows "get_a a i = bit v (nat (i mod 32))"
  using assms by (simp add: get_a_def toInt32_def ushr_def and31 bit_test)

lemma get_a_outside:
  assumes "wordAt (bits_a a) (i div 32) = None"
  shows "\<not> get_a a i"
  using assms by (simp add: get_a_def toInt32_def ushr_def)

lemma reverse_a_fields [simp]:
  "size_a (reverse_a a) = size_a a" "length (bits_a (reverse_a a)) = length (bits_a a)"
  by (simp_all add: reverse_a_def)

lemma get_a_reverse:
  assumes "0 \<le> i" "i < 32 * int (length (bits_a a))"
  shows "get_a (reverse_a a) i \<longleftrightarrow> i < size_a a \<and> get_a a (size_a a - 1 - i)"
proof -
  define k where "k = nat (i div 32)"
  define j where "j = nat (i mod 32)"
  have d: "0 \<le> i div 32" "i div 32 < int (length (bits_a a))" using assms by simp_all
  then have k: "k < length (bits_a a)" "int k = i div 32" by (simp_all add: k_def nat_less_iff)
  have j: "j < 32" "int j = i mod 32" by (simp_all add: j_def)
  have i: "32 * int k + int j = i" by (simp add: k j)
  have "wordAt (bits_a (reverse_a a)) (i div 32) = Some (bits_a (reverse_a a) ! k)"
    using d by (simp add: wordAt_def k_def)
  from get_a_word [OF this] have "get_a (reverse_a a) i = bit (bits_a (reverse_a a) ! k) j"
    by (simp add: j_def)
  also have "\<dots> \<longleftrightarrow> 32 * int k + int j < size_a a \<and> get_a a (size_a a - 1 - (32 * int k + int j))"
    using k(1) j(1) by (simp add: reverse_a_def bit_horner_sum_bit_word_iff)
  finally show ?thesis by (simp only: i)
qed

lemma setBulk_fields [simp]:
  "size_a (setBulk a i w) = size_a a" "length (bits_a (setBulk a i w)) = length (bits_a a)"
  by (simp_all add: setBulk_def storeAt_def)

lemma getRowLoop_spec:
  assumes "0 \<le> x0" "x0 \<le> rs" "length (bits_a row) = nat rs"
  shows "getRowLoop ws off rs row x0 =
           row\<lparr>bits_a := map (\<lambda>c. if int c < x0 then bits_a row ! c
                                  else toInt32 (wordAt ws (off + int c))) [0..<nat rs]\<rparr>"
  using assms
proof (induction "nat (rs - x0)" arbitrary: x0 row)
  case 0
  then have x: "x0 = rs" by simp
  have "map (\<lambda>c. if int c < x0 then bits_a row ! c else toInt32 (wordAt ws (off + int c))) [0..<nat rs]
        = bits_a row"
  proof (rule nth_equalityI)
    show "length (map (\<lambda>c. if int c < x0 then bits_a row ! c else toInt32 (wordAt ws (off + int c))) [0..<nat rs])
          = length (bits_a row)" using 0(4) by simp
    fix i assume "i < length (map (\<lambda>c. if int c < x0 then bits_a row ! c else toInt32 (wordAt ws (off + int c))) [0..<nat rs])"
    then have i: "i < nat rs" by simp
    then have "int i < x0" using x by simp
    with i show "map (\<lambda>c. if int c < x0 then bits_a row ! c else toInt32 (wordAt ws (off + int c))) [0..<nat rs] ! i
          = bits_a row ! i" by simp
  qed
  then show ?case using x by (subst getRowLoop.simps) simp
next
  case (Suc d)
  then have lt: "x0 < rs" by simp
  define row1 where "row1 = setBulk row (x0 * 32) (toInt32 (wordAt ws (off + x0)))"
  have b1: "bits_a row1 = (bits_a row)[nat x0 := toInt32 (wordAt ws (off + x0))]"
    using lt Suc.prems by (simp add: row1_def setBulk_def storeAt_def)
  have l1: "length (bits_a row1) = nat rs" using Suc.prems by (simp add: row1_def)
  have "getRowLoop ws off rs row x0 = getRowLoop ws off rs row1 (x0 + 1)"
    using lt by (subst getRowLoop.simps) (simp add: row1_def)
  also have "\<dots> = row1\<lparr>bits_a := map (\<lambda>c. if int c < x0 + 1 then bits_a row1 ! c
                                  else toInt32 (wordAt ws (off + int c))) [0..<nat rs]\<rparr>"
    using Suc.hyps(2) lt Suc.prems l1 by (intro Suc.hyps(1)) simp_all
  also have "map (\<lambda>c. if int c < x0 + 1 then bits_a row1 ! c
                                  else toInt32 (wordAt ws (off + int c))) [0..<nat rs] =
             map (\<lambda>c. if int c < x0 then bits_a row ! c
                                  else toInt32 (wordAt ws (off + int c))) [0..<nat rs]"
  proof (rule map_cong [OF refl])
    fix c assume "c \<in> set [0..<nat rs]"
    then have c: "c < nat rs" by simp
    show "(if int c < x0 + 1 then bits_a row1 ! c else toInt32 (wordAt ws (off + int c))) =
          (if int c < x0 then bits_a row ! c else toInt32 (wordAt ws (off + int c)))"
    proof (cases "int c = x0")
      case True
      then have "nat x0 = c" by simp
      with True c Suc.prems b1 show ?thesis by simp
    next
      case False
      then have "nat x0 \<noteq> c" using Suc.prems(1) by auto
      with False b1 show ?thesis by auto
    qed
  qed
  finally show ?case by (simp add: row1_def)
qed

lemma getRow_spec:
  assumes "0 \<le> rowSize m" "length (bits_a row) = nat (rowSize m)" "size_a row = width m"
  shows "getRow m y row =
           \<lparr>size_a = width m,
            bits_a = map (\<lambda>c. toInt32 (wordAt (bits m) (y * rowSize m + int c))) [0..<nat (rowSize m)]\<rparr>"
proof -
  have c: "length (bits_a (clear_a row)) = nat (rowSize m)" "size_a (clear_a row) = width m"
    using assms by (simp_all add: clear_a_def)
  have "getRow m y row = getRowLoop (bits m) (y * rowSize m) (rowSize m) (clear_a row) 0"
    using assms(3) by (simp add: getRow_def getSize_def)
  also have "\<dots> = (clear_a row)\<lparr>bits_a := map (\<lambda>c. if int c < 0 then bits_a (clear_a row) ! c
         else toInt32 (wordAt (bits m) (y * rowSize m + int c))) [0..<nat (rowSize m)]\<rparr>"
    by (rule getRowLoop_spec [OF order_refl assms(1) c(1)])
  finally show ?thesis using c(2) by (simp add: clear_a_def)
qed

text \<open>
  \<open>getRow\<close> copies a row, \<open>arraycopy\<close> overwrites a run of words, and \<open>setRow\<close> replaces
  one row and leaves the others as they are.
\<close>

lemma get_a_getRow:
  assumes "0 \<le> rowSize m" "length (bits_a row) = nat (rowSize m)" "size_a row = width m"
    and "0 \<le> x" "x < 32 * rowSize m"
  shows "get_a (getRow m y row) x = get m x y"
proof -
  from col_range [OF assms(4,5)] have d: "0 \<le> x div 32" "x div 32 < rowSize m" .
  then have n: "nat (x div 32) < nat (rowSize m)" by simp
  have "wordAt (bits_a (getRow m y row)) (x div 32) =
          Some (toInt32 (wordAt (bits m) (y * rowSize m + x div 32)))"
    using d n by (simp add: getRow_spec [OF assms(1-3)] wordAt_def)
  then show ?thesis by (simp add: get_a_def get_def toInt32_def)
qed

lemma getRow_fields:
  assumes "0 \<le> rowSize m" "length (bits_a row) = nat (rowSize m)" "size_a row = width m"
  shows "size_a (getRow m y row) = width m" "length (bits_a (getRow m y row)) = nat (rowSize m)"
  by (simp_all add: getRow_spec [OF assms])

lemma arraycopy_spec:
  assumes "0 \<le> n"
  shows "arraycopy src sp dest dp n =
           Some (map (\<lambda>k. if dp \<le> int k \<and> int k < dp + n
                           then toInt32 (wordAt src (sp + (int k - dp))) else dest ! k)
                     [0..<length dest])"
  using assms
proof (induction "nat n" arbitrary: n sp dest dp)
  case 0
  then have n: "n = 0" by simp
  have "map (\<lambda>k. if dp \<le> int k \<and> int k < dp + n
                           then toInt32 (wordAt src (sp + (int k - dp))) else dest ! k)
                     [0..<length dest] = dest"
    using n by (intro nth_equalityI) auto
  then show ?case using n by (subst arraycopy.simps) simp
next
  case (Suc d)
  then have pos: "0 < n" by simp
  define v where "v = toInt32 (wordAt src sp)"
  define dest1 where "dest1 = storeAt dest dp v"
  have l1: "length dest1 = length dest" by (simp add: dest1_def storeAt_def)
  have "arraycopy src sp dest dp n = arraycopy src (sp + 1) dest1 (dp + 1) (n - 1)"
    using pos by (subst arraycopy.simps) (simp add: dest1_def v_def)
  also have "\<dots> = Some (map (\<lambda>k. if dp + 1 \<le> int k \<and> int k < dp + 1 + (n - 1)
                           then toInt32 (wordAt src (sp + 1 + (int k - (dp + 1)))) else dest1 ! k)
                     [0..<length dest1])"
    using Suc.hyps(2) pos by (intro Suc.hyps(1)) simp_all
  also have "map (\<lambda>k. if dp + 1 \<le> int k \<and> int k < dp + 1 + (n - 1)
                           then toInt32 (wordAt src (sp + 1 + (int k - (dp + 1)))) else dest1 ! k)
                     [0..<length dest1] =
             map (\<lambda>k. if dp \<le> int k \<and> int k < dp + n
                           then toInt32 (wordAt src (sp + (int k - dp))) else dest ! k)
                     [0..<length dest]"
    unfolding l1
  proof (rule map_cong [OF refl])
    fix k assume "k \<in> set [0..<length dest]"
    then have k: "k < length dest" by simp
    show "(if dp + 1 \<le> int k \<and> int k < dp + 1 + (n - 1)
             then toInt32 (wordAt src (sp + 1 + (int k - (dp + 1)))) else dest1 ! k) =
          (if dp \<le> int k \<and> int k < dp + n
             then toInt32 (wordAt src (sp + (int k - dp))) else dest ! k)"
    proof (cases "int k = dp")
      case True
      then have "nat dp = k" "0 \<le> dp" "dp < int (length dest)" using k by simp_all
      then have "dest1 ! k = v" using k by (simp add: dest1_def storeAt_def)
      with True pos show ?thesis by (simp add: v_def)
    next
      case False
      then have "dest1 ! k = dest ! k" by (auto simp: dest1_def storeAt_def)
      with False show ?thesis by auto
    qed
  qed
  finally show ?case .
qed

lemma setRow_spec:
  assumes wf: "wellFormed m" and y: "0 \<le> y" "y < height m"
    and len: "length (bits_a row) = nat (rowSize m)"
  obtains m' where "setRow m y row = Some m'" "wellFormed m'"
    "width m' = width m" "height m' = height m" "rowSize m' = rowSize m"
    "\<And>x y'. 0 \<le> x \<Longrightarrow> x < 32 * rowSize m \<Longrightarrow> 0 \<le> y' \<Longrightarrow> y' < height m \<Longrightarrow>
        get m' x y' = (if y' = y then get_a row x else get m x y')"
proof -
  from wellFormed_rowSize(1) [OF wf] have rs: "0 \<le> rowSize m" by simp
  define ws where "ws = map (\<lambda>k. if y * rowSize m \<le> int k \<and> int k < y * rowSize m + rowSize m
                           then toInt32 (wordAt (bits_a row) (0 + (int k - y * rowSize m))) else bits m ! k)
                     [0..<length (bits m)]"
  define m' where "m' = m\<lparr>bits := ws\<rparr>"
  have s: "setRow m y row = Some m'"
    by (simp add: setRow_def getBitArray_def arraycopy_spec [OF rs] m'_def ws_def)
  have f: "width m' = width m" "height m' = height m" "rowSize m' = rowSize m"
    "length (bits m') = length (bits m)"
    by (simp_all add: m'_def ws_def)
  have wf': "wellFormed m'" using wf f by (simp add: wellFormed_def)
  have g: "get m' x y' = (if y' = y then get_a row x else get m x y')"
    if x: "0 \<le> x" "x < 32 * rowSize m" and y': "0 \<le> y'" "y' < height m" for x y'
  proof -
    from col_range [OF x] have c: "0 \<le> x div 32" "x div 32 < rowSize m" .
    define o' where "o' = y' * rowSize m + x div 32"
    from offset_range [OF y' c] wf have o: "0 \<le> o'" "o' < int (length (bits m))"
      by (simp_all add: o'_def wellFormed_def)
    then have n: "nat o' < length (bits m)" by simp
    have w: "wordAt (bits m') o' = Some (ws ! nat o')" "wordAt (bits m) o' = Some (bits m ! nat o')"
      using o f(4) by (simp_all add: wordAt_def m'_def)
    have wsn: "ws ! nat o' = (if y * rowSize m \<le> o' \<and> o' < y * rowSize m + rowSize m
                           then toInt32 (wordAt (bits_a row) (o' - y * rowSize m)) else bits m ! nat o')"
      using n o(1) by (simp add: ws_def)
    show ?thesis
    proof (cases "y' = y")
      case True
      have "y * rowSize m \<le> o' \<and> o' < y * rowSize m + rowSize m" "o' - y * rowSize m = x div 32"
        using c True by (simp_all add: o'_def)
      with wsn have "ws ! nat o' = toInt32 (wordAt (bits_a row) (x div 32))" by simp
      with w(1) have "toInt32 (wordAt (bits m') o') = toInt32 (wordAt (bits_a row) (x div 32))"
        by (simp add: toInt32_def)
      then have "toInt32 (wordAt (bits m') (y' * rowSize m' + x div 32)) =
                 toInt32 (wordAt (bits_a row) (x div 32))"
        by (simp only: o'_def f(3))
      then show ?thesis using True by (simp add: get_def get_a_def)
    next
      case False
      have "\<not> (y * rowSize m \<le> o' \<and> o' < y * rowSize m + rowSize m)"
      proof
        assume a: "y * rowSize m \<le> o' \<and> o' < y * rowSize m + rowSize m"
        define c' where "c' = o' - y * rowSize m"
        from a have c': "0 \<le> c'" "c' < rowSize m" by (simp_all add: c'_def)
        have "y' * rowSize m + x div 32 = y * rowSize m + c'" by (simp add: c'_def o'_def)
        with offset_inj [OF c c', of y' y] False show False by simp
      qed
      with wsn have "ws ! nat o' = bits m ! nat o'" by simp
      with w have "toInt32 (wordAt (bits m') o') = toInt32 (wordAt (bits m) o')"
        by (simp add: toInt32_def)
      then have "toInt32 (wordAt (bits m') (y' * rowSize m' + x div 32)) =
                 toInt32 (wordAt (bits m) (y' * rowSize m + x div 32))"
        by (simp only: o'_def f(3))
      then show ?thesis using False by (simp add: get_def)
    qed
  qed
  from that [OF s wf' f(1-3) g] show thesis by blast
qed

text \<open>
  The loop of \<open>rotate180\<close>: after \<open>i\<close> rounds the first \<open>i\<close> and the last \<open>i\<close> rows hold
  the rotated content and the rows between them are untouched.
\<close>

lemma wellFormed_same_rowSize:
  assumes "wellFormed m" "wellFormed m0" "width m = width m0"
  shows "rowSize m = rowSize m0"
  using assms by (simp add: wellFormed_def)

lemma newBitArray_fields:
  assumes "wellFormed m"
  shows "size_a (newBitArray (width m)) = width m"
        "length (bits_a (newBitArray (width m))) = nat (rowSize m)"
  using assms by (simp_all add: newBitArray_def wellFormed_def)

lemma rotateLoop_spec:
  assumes wf0: "wellFormed m0" and wf: "wellFormed m"
    and dims: "width m = width m0" "height m = height m0"
    and i: "0 \<le> i" "i \<le> len" and len: "len = (height m0 + 1) div 2"
    and inv: "\<And>x y. 0 \<le> x \<Longrightarrow> x < 32 * rowSize m0 \<Longrightarrow> 0 \<le> y \<Longrightarrow> y < height m0 \<Longrightarrow>
               get m x y = (if y < i \<or> height m0 - i \<le> y then rotated m0 x y else get m0 x y)"
    and top: "size_a topRow = width m0" "length (bits_a topRow) = nat (rowSize m0)"
    and bot: "size_a bottomRow = width m0" "length (bits_a bottomRow) = nat (rowSize m0)"
  shows "\<exists>m'. rotateLoop m (height m0) topRow bottomRow i len = Some m' \<and> wellFormed m' \<and>
           width m' = width m0 \<and> height m' = height m0 \<and>
           (\<forall>x y. 0 \<le> x \<longrightarrow> x < 32 * rowSize m0 \<longrightarrow> 0 \<le> y \<longrightarrow> y < height m0 \<longrightarrow>
                  get m' x y = rotated m0 x y)"
  using wf dims i inv top bot
proof (induction "nat (len - i)" arbitrary: m i topRow bottomRow)
  case 0
  then have e: "i = len" by simp
  have "get m x y = rotated m0 x y"
    if "0 \<le> x" "x < 32 * rowSize m0" "0 \<le> y" "y < height m0" for x y
  proof -
    have "y < i \<or> height m0 - i \<le> y" using e len by linarith
    with "0.prems"(6) [OF that] show ?thesis by simp
  qed
  moreover have "rotateLoop m (height m0) topRow bottomRow i len = Some m"
    using e by (subst rotateLoop.simps) simp
  ultimately show ?case using "0.prems"(1-3) by simp
next
  case (Suc d)
  note wf = Suc.prems(1) and dims = Suc.prems(2,3) and inv = Suc.prems(6)
    and top = Suc.prems(7,8) and bot = Suc.prems(9,10)
  define W where "W = width m0"
  define H where "H = height m0"
  define rs where "rs = rowSize m0"
  from Suc.hyps(2) have lt: "i < len" by simp
  with len have "i < (H + 1) div 2" by (simp add: H_def)
  then have iH: "i \<le> H - 1 - i" "i < H" using Suc.prems(4) by linarith+
  from Suc.prems(4) iH have j: "0 \<le> H - 1 - i" "H - 1 - i < H" by simp_all
  have rsm: "rowSize m = rs" using wellFormed_same_rowSize [OF wf wf0 dims(1)] by (simp add: rs_def)
  from wellFormed_rowSize [OF wf0] have rs: "0 \<le> rs" "W \<le> 32 * rs"
    by (simp_all add: rs_def W_def)
  define topRow1 where "topRow1 = getRow m i topRow"
  define bottomRow1 where "bottomRow1 = getRow m (H - 1 - i) bottomRow"
  define topRow2 where "topRow2 = reverse_a topRow1"
  define bottomRow2 where "bottomRow2 = reverse_a bottomRow1"
  have pm: "0 \<le> rowSize m" "length (bits_a topRow) = nat (rowSize m)" "size_a topRow = width m"
     "length (bits_a bottomRow) = nat (rowSize m)" "size_a bottomRow = width m"
    using rs top bot dims by (simp_all add: rsm rs_def)
  have t1: "size_a topRow1 = W" "length (bits_a topRow1) = nat rs"
    using getRow_fields [OF pm(1-3), of i] dims by (simp_all add: topRow1_def W_def rsm)
  have b1: "size_a bottomRow1 = W" "length (bits_a bottomRow1) = nat rs"
    using getRow_fields [OF pm(1,4,5), of "H - 1 - i"] dims
    by (simp_all add: bottomRow1_def W_def rsm)
  have t2: "size_a topRow2 = W" "length (bits_a topRow2) = nat rs"
    using t1 by (simp_all add: topRow2_def)
  have b2: "size_a bottomRow2 = W" "length (bits_a bottomRow2) = nat rs"
    using b1 by (simp_all add: bottomRow2_def)
  have gt1: "get_a topRow1 x = get m0 x i" if x: "0 \<le> x" "x < 32 * rs" for x
  proof -
    have "get_a topRow1 x = get m x i"
      unfolding topRow1_def using x by (intro get_a_getRow [OF pm(1-3)]) (simp_all add: rsm)
    also have "\<dots> = get m0 x i"
      using inv [of x i] x Suc.prems(4) iH by (simp add: rs_def H_def)
    finally show ?thesis .
  qed
  have gb1: "get_a bottomRow1 x = get m0 x (H - 1 - i)" if x: "0 \<le> x" "x < 32 * rs" for x
  proof -
    have "get_a bottomRow1 x = get m x (H - 1 - i)"
      unfolding bottomRow1_def using x by (intro get_a_getRow [OF pm(1,4,5)]) (simp_all add: rsm)
    also have "\<dots> = (if H - 1 - i < i \<or> H - i \<le> H - 1 - i then rotated m0 x (H - 1 - i)
                        else get m0 x (H - 1 - i))"
      using inv [of x "H - 1 - i"] x j by (simp add: rs_def H_def)
    also have "\<dots> = get m0 x (H - 1 - i)" using iH by simp
    finally show ?thesis .
  qed
  have gt2: "get_a topRow2 x = rotated m0 x (H - 1 - i)" if x: "0 \<le> x" "x < 32 * rs" for x
  proof -
    have "get_a topRow2 x \<longleftrightarrow> x < W \<and> get_a topRow1 (W - 1 - x)"
      unfolding topRow2_def using x t1 rs(1) by (subst get_a_reverse) simp_all
    also have "\<dots> \<longleftrightarrow> x < W \<and> get m0 (W - 1 - x) i"
      using x rs(2) by (auto simp: gt1)
    finally show ?thesis by (simp add: rotated_def W_def H_def)
  qed
  have gb2: "get_a bottomRow2 x = rotated m0 x i" if x: "0 \<le> x" "x < 32 * rs" for x
  proof -
    have "get_a bottomRow2 x \<longleftrightarrow> x < W \<and> get_a bottomRow1 (W - 1 - x)"
      unfolding bottomRow2_def using x b1 rs(1) by (subst get_a_reverse) simp_all
    also have "\<dots> \<longleftrightarrow> x < W \<and> get m0 (W - 1 - x) (H - 1 - i)"
      using x rs(2) by (auto simp: gb1)
    finally show ?thesis by (simp add: rotated_def W_def H_def)
  qed
  have hm: "height m = H" using dims by (simp add: H_def)
  from b2(2) have lb: "length (bits_a bottomRow2) = nat (rowSize m)" by (simp add: rsm)
  from Suc.prems(4) iH hm have yi: "0 \<le> i" "i < height m" by simp_all
  from setRow_spec [OF wf yi lb]
  obtain m1 where m1: "setRow m i bottomRow2 = Some m1" "wellFormed m1"
    "width m1 = width m" "height m1 = height m" "rowSize m1 = rowSize m"
    and g1: "\<And>x y'. 0 \<le> x \<Longrightarrow> x < 32 * rowSize m \<Longrightarrow> 0 \<le> y' \<Longrightarrow> y' < height m \<Longrightarrow>
        get m1 x y' = (if y' = i then get_a bottomRow2 x else get m x y')"
    by blast
  from t2(2) m1(5) have lt2: "length (bits_a topRow2) = nat (rowSize m1)" by (simp add: rsm)
  from j hm m1(4) have yj: "0 \<le> H - 1 - i" "H - 1 - i < height m1" by simp_all
  from setRow_spec [OF m1(2) yj lt2]
  obtain m2 where m2: "setRow m1 (H - 1 - i) topRow2 = Some m2" "wellFormed m2"
    "width m2 = width m1" "height m2 = height m1" "rowSize m2 = rowSize m1"
    and g2: "\<And>x y'. 0 \<le> x \<Longrightarrow> x < 32 * rowSize m1 \<Longrightarrow> 0 \<le> y' \<Longrightarrow> y' < height m1 \<Longrightarrow>
        get m2 x y' = (if y' = H - 1 - i then get_a topRow2 x else get m1 x y')"
    by blast
  have inv2: "get m2 x y = (if y < i + 1 \<or> height m0 - (i + 1) \<le> y then rotated m0 x y else get m0 x y)"
    if xy: "0 \<le> x" "x < 32 * rowSize m0" "0 \<le> y" "y < height m0" for x y
  proof -
    have x': "x < 32 * rs" "x < 32 * rowSize m" "x < 32 * rowSize m1"
      using xy(2) by (simp_all add: rs_def rsm m1(5))
    have y': "y < height m" "y < height m1" using xy(4) by (simp_all add: hm m1(4) H_def)
    have a: "get m2 x y = (if y = H - 1 - i then get_a topRow2 x else get m1 x y)"
      by (rule g2 [OF xy(1) x'(3) xy(3) y'(2)])
    have b: "get m1 x y = (if y = i then get_a bottomRow2 x else get m x y)"
      by (rule g1 [OF xy(1) x'(2) xy(3) y'(1)])
    have c: "get m x y = (if y < i \<or> H - i \<le> y then rotated m0 x y else get m0 x y)"
      using inv [OF xy] by (simp add: H_def)
    show ?thesis
      unfolding a b c gt2 [OF xy(1) x'(1)] gb2 [OF xy(1) x'(1)] H_def [symmetric]
      by auto
  qed
  have step: "rotateLoop m (height m0) topRow bottomRow i len =
              rotateLoop m2 (height m0) topRow2 bottomRow2 (i + 1) len"
    using lt m1(1) m2(1)
    by (subst rotateLoop.simps)
       (simp add: Let_def topRow1_def [symmetric] bottomRow1_def [symmetric] H_def [symmetric]
          topRow2_def [symmetric] bottomRow2_def [symmetric])
  have "\<exists>m'. rotateLoop m2 (height m0) topRow2 bottomRow2 (i + 1) len = Some m' \<and> wellFormed m' \<and>
           width m' = width m0 \<and> height m' = height m0 \<and>
           (\<forall>x y. 0 \<le> x \<longrightarrow> x < 32 * rowSize m0 \<longrightarrow> 0 \<le> y \<longrightarrow> y < height m0 \<longrightarrow>
                  get m' x y = rotated m0 x y)"
  proof (rule Suc.hyps(1))
    show "d = nat (len - (i + 1))" using Suc.hyps(2) by simp
    show "wellFormed m2" by (rule m2(2))
    show "width m2 = width m0" "height m2 = height m0" using m2 m1 dims by simp_all
    show "0 \<le> i + 1" "i + 1 \<le> len" using Suc.prems(4) lt by simp_all
    show "size_a topRow2 = width m0" "length (bits_a topRow2) = nat (rowSize m0)"
      "size_a bottomRow2 = width m0" "length (bits_a bottomRow2) = nat (rowSize m0)"
      using t2 b2 by (simp_all add: W_def rs_def)
  qed (rule inv2)
  then show ?case by (simp only: step)
qed

lemma rotate180_spec:
  assumes wf: "wellFormed m"
  shows "\<exists>m'. rotate180 m = Some m' \<and> wellFormed m' \<and>
           width m' = width m \<and> height m' = height m \<and>
           (\<forall>x y. 0 \<le> x \<longrightarrow> x < 32 * rowSize m \<longrightarrow> 0 \<le> y \<longrightarrow> y < height m \<longrightarrow>
                  get m' x y = rotated m x y)"
proof -
  have h: "0 \<le> (height m + 1) div 2" using wf by (simp add: wellFormed_def)
  have "\<exists>m'. rotateLoop m (height m) (newBitArray (width m)) (newBitArray (width m)) 0
                ((height m + 1) div 2) = Some m' \<and> wellFormed m' \<and>
           width m' = width m \<and> height m' = height m \<and>
           (\<forall>x y. 0 \<le> x \<longrightarrow> x < 32 * rowSize m \<longrightarrow> 0 \<le> y \<longrightarrow> y < height m \<longrightarrow>
                  get m' x y = rotated m x y)"
    by (rule rotateLoop_spec [OF wf wf refl refl order_refl h refl _ newBitArray_fields [OF wf]
          newBitArray_fields [OF wf]]) simp
  then show ?thesis by (simp add: rotate180_def Let_def)
qed

lemma rotated_twice:
  assumes wf: "wellFormed m" and wf': "wellFormed m'"
    and d: "width m' = width m" "height m' = height m"
    and g: "\<And>x y. 0 \<le> x \<Longrightarrow> x < 32 * rowSize m \<Longrightarrow> 0 \<le> y \<Longrightarrow> y < height m \<Longrightarrow>
              get m' x y = rotated m x y"
    and x: "0 \<le> x" and y: "0 \<le> y" "y < height m"
  shows "rotated m' x y \<longleftrightarrow> x < width m \<and> get m x y"
proof (cases "x < width m")
  case True
  from wellFormed_rowSize(2) [OF wf] True x
  have a: "0 \<le> width m - 1 - x" "width m - 1 - x < 32 * rowSize m" by simp_all
  from y have b: "0 \<le> height m - 1 - y" "height m - 1 - y < height m" by simp_all
  have "rotated m' x y = get m' (width m - 1 - x) (height m - 1 - y)"
    using True by (simp add: rotated_def d)
  also have "\<dots> = rotated m (width m - 1 - x) (height m - 1 - y)" by (rule g [OF a b])
  also have "\<dots> = get m x y" using x by (simp add: rotated_def)
  finally show ?thesis using True by simp
next
  case False
  then show ?thesis by (simp add: rotated_def d)
qed

text \<open>
  C8: for every matrix \<open>m\<close> in the constructor's layout, of any width and height,
  \<open>rotate180\<close> returns, and so does a second \<open>rotate180\<close>. After the first, the bit at
  column \<open>x\<close> of row \<open>y\<close> is the bit that \<open>m\<close> had at column \<open>width - 1 - x\<close> of row
  \<open>height - 1 - y\<close>: row \<open>y\<close> holds the reversed row \<open>height - 1 - y\<close>, and the middle row of
  an odd height holds its own reverse. After the second, every bit inside the matrix is as
  it was in \<open>m\<close>. Both results have no bit set beyond the width, so the second equals \<open>m\<close>
  itself when \<open>m\<close> has none either.
\<close>

theorem rotate180_involution:
  assumes "wellFormed m"
  shows "\<exists>m' m''. rotate180 m = Some m' \<and> rotate180 m' = Some m'' \<and>
           wellFormed m' \<and> width m' = width m \<and> height m' = height m \<and>
           wellFormed m'' \<and> width m'' = width m \<and> height m'' = height m \<and>
           (\<forall>y \<in> {0..<height m}. \<forall>x \<in> {0..<width m}.
              get m' x y = get m (width m - 1 - x) (height m - 1 - y) \<and>
              get m'' x y = get m x y) \<and>
           paddingClear m' \<and> paddingClear m'' \<and>
           (paddingClear m \<longrightarrow> m'' = m)"
proof -
  from rotate180_spec [OF assms]
  obtain m' where r1: "rotate180 m = Some m'" and wf1: "wellFormed m'"
    and d1: "width m' = width m" "height m' = height m"
    and g1: "\<And>x y. 0 \<le> x \<Longrightarrow> x < 32 * rowSize m \<Longrightarrow> 0 \<le> y \<Longrightarrow> y < height m \<Longrightarrow>
               get m' x y = rotated m x y"
    by blast
  from rotate180_spec [OF wf1]
  obtain m'' where r2: "rotate180 m' = Some m''" and wf2: "wellFormed m''"
    and d2: "width m'' = width m'" "height m'' = height m'"
    and g2: "\<And>x y. 0 \<le> x \<Longrightarrow> x < 32 * rowSize m' \<Longrightarrow> 0 \<le> y \<Longrightarrow> y < height m' \<Longrightarrow>
               get m'' x y = rotated m' x y"
    by blast
  have rs1: "rowSize m' = rowSize m" by (rule wellFormed_same_rowSize [OF wf1 assms d1(1)])
  have rs2: "rowSize m'' = rowSize m" using wellFormed_same_rowSize [OF wf2 wf1 d2(1)] rs1 by simp
  have g2': "get m'' x y \<longleftrightarrow> x < width m \<and> get m x y"
    if "0 \<le> x" "x < 32 * rowSize m" "0 \<le> y" "y < height m" for x y
    using g2 [of x y] that rotated_twice [OF assms wf1 d1 g1 that(1,3,4)] by (simp add: rs1 d1)
  have inside: "\<forall>y \<in> {0..<height m}. \<forall>x \<in> {0..<width m}.
              get m' x y = get m (width m - 1 - x) (height m - 1 - y) \<and>
              get m'' x y = get m x y"
  proof (intro ballI)
    fix x y assume y: "y \<in> {0..<height m}" and x: "x \<in> {0..<width m}"
    with wellFormed_rowSize(2) [OF assms]
    have r: "0 \<le> x" "x < 32 * rowSize m" "0 \<le> y" "y < height m" by simp_all
    from g1 [OF r] g2' [OF r] x
    show "get m' x y = get m (width m - 1 - x) (height m - 1 - y) \<and> get m'' x y = get m x y"
      by (simp add: rotated_def)
  qed
  have p1: "paddingClear m'"
    unfolding paddingClear_def
  proof (intro ballI)
    fix x y assume "y \<in> {0..<height m'}" "x \<in> {width m'..<32 * rowSize m'}"
    then have r: "0 \<le> x" "x < 32 * rowSize m" "0 \<le> y" "y < height m" and "\<not> x < width m"
      using wf1 by (simp_all add: d1 rs1 wellFormed_def)
    with g1 [OF r] show "\<not> get m' x y" by (simp add: rotated_def)
  qed
  have p2: "paddingClear m''"
    unfolding paddingClear_def
  proof (intro ballI)
    fix x y assume "y \<in> {0..<height m''}" "x \<in> {width m''..<32 * rowSize m''}"
    then have r: "0 \<le> x" "x < 32 * rowSize m" "0 \<le> y" "y < height m" and "\<not> x < width m"
      using assms by (simp_all add: d1 d2 rs2 wellFormed_def)
    with g2' [OF r] show "\<not> get m'' x y" by simp
  qed
  have same: "m'' = m" if pc: "paddingClear m"
  proof (rule matrix_eqI [OF wf2 assms])
    show "width m'' = width m" "height m'' = height m" by (simp_all add: d1 d2)
    fix x y assume "0 \<le> x" "x < 32 * rowSize m''" "0 \<le> y" "y < height m''"
    then have r: "0 \<le> x" "x < 32 * rowSize m" "0 \<le> y" "y < height m"
      by (simp_all add: rs2 d1 d2)
    show "get m'' x y = get m x y"
    proof (cases "x < width m")
      case True
      with g2' [OF r] show ?thesis by simp
    next
      case False
      with r pc have "\<not> get m x y" by (simp add: paddingClear_def)
      with g2' [OF r] show ?thesis by simp
    qed
  qed
  from r1 r2 wf1 d1 wf2 d2 inside p1 p2 same show ?thesis by (intro exI [of _ m'] exI [of _ m'']) simp
qed

theorem rotate180_involution_witness:
  "wellFormed \<lparr>width = 3, height = 3, rowSize = 1, bits = [1, 3, 4]\<rparr> \<and>
   rotate180 \<lparr>width = 3, height = 3, rowSize = 1, bits = [1, 3, 4]\<rparr>
     = Some \<lparr>width = 3, height = 3, rowSize = 1, bits = [1, 6, 4]\<rparr> \<and>
   rotate180 \<lparr>width = 3, height = 3, rowSize = 1, bits = [1, 6, 4]\<rparr>
     = Some \<lparr>width = 3, height = 3, rowSize = 1, bits = [1, 3, 4]\<rparr>"
proof -
  let ?m = "\<lparr>width = 3, height = 3, rowSize = 1, bits = [1, 3, 4]\<rparr>"
  let ?r = "\<lparr>width = 3, height = 3, rowSize = 1, bits = [1, 6, 4]\<rparr>"
  have wf: "wellFormed ?m" by (simp add: wellFormed_def)
  have pc: "paddingClear ?m" unfolding paddingClear_def int_range_upto by code_simp
  have r: "rotate180 ?m = Some ?r" by code_simp
  from rotate180_involution [OF wf] pc r have "rotate180 ?r = Some ?m" by auto
  with wf r show ?thesis by (intro conjI)
qed

end
